theory Spec2Isabelle
  imports Main "HOL-Library.Char_ord" "HOL-Library.List_Lexorder" "HOL-Library.Multiset"
    "HOL-Library.AList" "HOL-Library.Sublist"
begin

section \<open>Merge planner (C7)\<close>

text \<open>
  The tests in \<^verbatim>\<open>merge_test.go\<close> call \<^verbatim>\<open>planMerge(sizes, maxBytes)\<close> and read the fields
  \<^verbatim>\<open>Keep\<close> and \<^verbatim>\<open>Layers\<close> of every step; the function itself is not among the available
  sources. The step type is a record; its layer field is called \<open>StepLayers\<close> because
  \<open>Layers\<close> is also a field of the resolved image below.
\<close>

record MergeStep =
  Keep :: bool
  StepLayers :: "nat list"

text \<open>
  Modelled from the spec: the flush of the merge planner's accumulator, which is not in the
  available sources. "flush the accumulator as a step (merge if \<open>\<ge> 2\<close> layers, keep if
  exactly 1)"; an empty accumulator (only possible for an empty size list) yields no step.
\<close>

definition flush :: "nat list \<Rightarrow> MergeStep list" where
  "flush acc = (if acc = [] then [] else [\<lparr>Keep = (length acc = 1), StepLayers = acc\<rparr>])"

text \<open>
  Modelled from the spec: the single left-to-right scan of \<^verbatim>\<open>planMerge\<close>, which is not in the
  available sources. The arguments are the cap, the index of the next layer, the sizes still
  to be read, and the accumulator (indices and their sum).
\<close>

fun planLoop :: "int \<Rightarrow> nat \<Rightarrow> int list \<Rightarrow> nat list \<Rightarrow> int \<Rightarrow> MergeStep list" where
  "planLoop maxBytes i [] acc accSum = flush acc"
| "planLoop maxBytes i (s # rest) acc accSum =
     (if acc = [] then planLoop maxBytes (Suc i) rest [i] s
      else if accSum + s \<le> maxBytes then planLoop maxBytes (Suc i) rest (acc @ [i]) (accSum + s)
      else flush acc @ planLoop maxBytes (Suc i) rest [i] s)"

text \<open>Modelled from the spec: \<^verbatim>\<open>planMerge\<close>, which is not in the available sources.\<close>

definition planMerge :: "int list \<Rightarrow> int \<Rightarrow> MergeStep list" where
  "planMerge sizes maxBytes = planLoop maxBytes 0 sizes [] 0"

text \<open>The size of a step: the sum of the sizes of the layers it covers.\<close>

definition stepSize :: "int list \<Rightarrow> MergeStep \<Rightarrow> int" where
  "stepSize sizes st = sum_list (map (\<lambda>i. sizes ! i) (StepLayers st))"

definition stepOk :: "int list \<Rightarrow> int \<Rightarrow> MergeStep \<Rightarrow> bool" where
  "stepOk sizes maxBytes st \<longleftrightarrow>
     (Keep st \<and> length (StepLayers st) = 1) \<or> (\<not> Keep st \<and> stepSize sizes st \<le> maxBytes)"

subsection \<open>Every step is a single layer or fits the cap\<close>

lemma flush_ok:
  "acc = [] \<or> length acc = 1 \<or> sum_list (map (\<lambda>i. sizes ! i) acc) \<le> maxBytes
    \<Longrightarrow> st \<in> set (flush acc) \<Longrightarrow> stepOk sizes maxBytes st"
  by (auto simp: flush_def stepOk_def stepSize_def split: if_splits)

lemma planLoop_ok:
  "rest = drop i sizes \<Longrightarrow> accSum = sum_list (map (\<lambda>j. sizes ! j) acc)
   \<Longrightarrow> acc = [] \<or> length acc = 1 \<or> accSum \<le> maxBytes
   \<Longrightarrow> st \<in> set (planLoop maxBytes i rest acc accSum) \<Longrightarrow> stepOk sizes maxBytes st"
proof (induction rest arbitrary: i acc accSum)
  case Nil
  then show ?case using flush_ok[of acc sizes maxBytes st] by simp
next
  case (Cons s rest)
  from Cons.prems(1) have i: "i < length sizes"
    by (metis drop_eq_Nil list.distinct(1) not_le)
  with Cons.prems(1) have s: "s = sizes ! i" and rest: "rest = drop (Suc i) sizes"
    by (simp_all add: Cons_nth_drop_Suc[symmetric])
  note mem = Cons.prems(4)
  show ?case
  proof (cases "acc = []")
    case True
    with mem have "st \<in> set (planLoop maxBytes (Suc i) rest [i] s)" by simp
    then show ?thesis using Cons.IH[OF rest, of s "[i]"] s by simp
  next
    case False
    show ?thesis
    proof (cases "accSum + s \<le> maxBytes")
      case True
      with False mem have "st \<in> set (planLoop maxBytes (Suc i) rest (acc @ [i]) (accSum + s))"
        by simp
      then show ?thesis
        using Cons.IH[OF rest, of "accSum + s" "acc @ [i]"] s True Cons.prems(2) by simp
    next
      case gt: False
      with False mem have "st \<in> set (flush acc) \<or> st \<in> set (planLoop maxBytes (Suc i) rest [i] s)"
        by simp
      then show ?thesis
      proof
        assume "st \<in> set (flush acc)"
        then show ?thesis using flush_ok[of acc sizes maxBytes st] Cons.prems(2,3) by simp
      next
        assume "st \<in> set (planLoop maxBytes (Suc i) rest [i] s)"
        then show ?thesis using Cons.IH[OF rest, of s "[i]"] s by simp
      qed
    qed
  qed
qed

lemma planLoop_large_acc:
  "maxBytes < accSum \<Longrightarrow> \<forall>s\<in>set rest. 0 \<le> s
   \<Longrightarrow> \<lparr>Keep = True, StepLayers = [j]\<rparr> \<in> set (planLoop maxBytes i rest [j] accSum)"
  by (cases rest) (auto simp: flush_def)

lemma planLoop_large:
  "0 \<le> accSum \<Longrightarrow> \<forall>s\<in>set rest. 0 \<le> s \<Longrightarrow> k < length rest \<Longrightarrow> maxBytes < rest ! k
   \<Longrightarrow> \<lparr>Keep = True, StepLayers = [i + k]\<rparr> \<in> set (planLoop maxBytes i rest acc accSum)"
proof (induction rest arbitrary: i k acc accSum)
  case Nil
  then show ?case by simp
next
  case (Cons s rest)
  show ?case
  proof (cases k)
    case 0
    with Cons.prems have big: "maxBytes < s" and nn: "\<forall>s\<in>set rest. 0 \<le> s" by simp_all
    have "\<lparr>Keep = True, StepLayers = [i]\<rparr> \<in> set (planLoop maxBytes (Suc i) rest [i] s)"
      by (rule planLoop_large_acc[OF big nn])
    moreover have "\<not> accSum + s \<le> maxBytes" using big Cons.prems(1) by linarith
    ultimately show ?thesis using 0 by simp
  next
    case (Suc k')
    with Cons.prems have nn: "\<forall>s\<in>set rest. 0 \<le> s" and k': "k' < length rest"
      and big: "maxBytes < rest ! k'" and s0: "0 \<le> s" by simp_all
    have a: "\<lparr>Keep = True, StepLayers = [Suc i + k']\<rparr> \<in> set (planLoop maxBytes (Suc i) rest [i] s)"
      by (rule Cons.IH[OF s0 nn k' big])
    have b: "\<lparr>Keep = True, StepLayers = [Suc i + k']\<rparr>
               \<in> set (planLoop maxBytes (Suc i) rest (acc @ [i]) (accSum + s))"
      by (rule Cons.IH[OF _ nn k' big]) (use s0 Cons.prems(1) in linarith)
    show ?thesis using a b Suc by simp
  qed
qed

text \<open>
  C10: every step of the plan is a keep step of exactly one layer or a merge step whose
  layers' sizes sum to at most \<open>maxBytes\<close> (\<open>stepOk\<close>), for every size list and cap; and
  a layer larger than the cap is a keep step of its own. The second part is about byte
  sizes, which are not negative.
\<close>

theorem planMerge_steps_bounded:
  "(\<forall>st \<in> set (planMerge sizes maxBytes). stepOk sizes maxBytes st) \<and>
   ((\<forall>s \<in> set sizes. 0 \<le> s) \<longrightarrow>
      (\<forall>k < length sizes. maxBytes < sizes ! k \<longrightarrow>
         \<lparr>Keep = True, StepLayers = [k]\<rparr> \<in> set (planMerge sizes maxBytes)))"
proof (intro conjI ballI impI allI)
  fix st assume "st \<in> set (planMerge sizes maxBytes)"
  then show "stepOk sizes maxBytes st"
    using planLoop_ok[of sizes 0 sizes 0 "[]" maxBytes st] by (simp add: planMerge_def)
next
  fix k assume "\<forall>s \<in> set sizes. 0 \<le> s" "k < length sizes" "maxBytes < sizes ! k"
  then show "\<lparr>Keep = True, StepLayers = [k]\<rparr> \<in> set (planMerge sizes maxBytes)"
    using planLoop_large[of 0 sizes k maxBytes 0 "[]"] by (simp add: planMerge_def)
qed

theorem planMerge_steps_bounded_witness:
  "planMerge [10, 300, 20] 256 =
     [\<lparr>Keep = True, StepLayers = [0]\<rparr>, \<lparr>Keep = True, StepLayers = [1]\<rparr>, \<lparr>Keep = True, StepLayers = [2]\<rparr>]
   \<and> list_all (stepOk [10, 300, 20] 256) (planMerge [10, 300, 20] 256)
   \<and> (256::int) < [10, 300, 20] ! 1
   \<and> \<lparr>Keep = True, StepLayers = [1]\<rparr> \<in> set (planMerge [10, 300, 20] 256)"
  using planMerge_steps_bounded[of "[10, 300, 20]" 256]
  by (simp add: planMerge_def flush_def list_all_iff)

section \<open>Data model\<close>

text \<open>
  The Go type declarations (\<^verbatim>\<open>Layer\<close>, \<^verbatim>\<open>ResolvedImage\<close>, \<^verbatim>\<open>ImageConfig\<close>, \<^verbatim>\<open>Config\<close>) are not
  among the available sources; the records below hold the fields that the functions of
  \<^verbatim>\<open>intermediates.go\<close> and \<^verbatim>\<open>generate.go\<close> read or write. A layer's recipe-kind flags are
  read by no function modelled here and are left out. The name field of a layer is
  \<open>LayerName\<close> and the fields of the configuration defaults carry the prefix \<open>cfg\<close>,
  because a record field is a constant of the theory and \<open>Name\<close>, \<open>Registry\<close>, ... are
  fields of the resolved image. The type of the \<^verbatim>\<open>Merge\<close> setting is not visible; it is the
  type parameter \<open>'m\<close>. Go's \<^verbatim>\<open>int\<close> is modelled as \<open>int\<close>: the counters below are bounded
  by the sizes of the maps they count.
\<close>

record Layer =
  LayerName :: string
  Depends :: "string list"

record 'm ResolvedImage =
  Name :: string
  Base :: string
  IsExternalBase :: bool
  Layers :: "string list"
  Tag :: string
  Registry :: string
  Pkg :: string
  Platforms :: "string list"
  User :: string
  UID :: int
  GID :: int
  Merge :: 'm
  Auto :: bool
  Home :: string
  FullTag :: string
  Bootc :: bool

record 'm ImageConfig =
  cfgRegistry :: string
  cfgPkg :: string
  cfgPlatforms :: "string list"
  cfgUser :: string
  cfgUID :: "int option"
  cfgGID :: "int option"
  cfgMerge :: 'm

record 'm Config =
  Defaults :: "'m ImageConfig"

text \<open>
  Errors are values. \<open>UnknownLayer\<close> and \<open>LayerCycle\<close> are the two failures the spec gives
  to \<^verbatim>\<open>ResolveLayerOrder\<close>; \<open>CycleDetected\<close> is the error of \<^verbatim>\<open>topoSortByPopularity\<close>;
  \<open>ResolvingLayers\<close> and \<open>ComputingGlobalOrder\<close> are the two wrappers built with
  \<^verbatim>\<open>fmt.Errorf("...: %w", ...)\<close>; \<open>UnknownImage\<close> and \<open>ImageCycle\<close> are the failures the
  spec gives to the walk of a base chain.
\<close>

datatype error =
    UnknownLayer string
  | LayerCycle
  | UnknownImage string
  | ImageCycle
  | CycleDetected
  | ResolvingLayers string error
  | ComputingGlobalOrder error

text \<open>
  A Go map is an association list, read with \<open>map_of\<close> and written with
  \<open>AList.update\<close>; two lists with the same \<open>map_of\<close> are the same Go map. Go leaves the order of a \<^verbatim>\<open>range\<close> over a map unspecified.
  The environment \<open>E\<close> of a run therefore holds \<open>rangeOrder\<close>, the order in which the
  runtime visits a map's keys, next to the two functions of the repository that
  \<^verbatim>\<open>intermediates.go\<close> calls and that are not among the available sources. The theorems
  hold for every \<open>rangeOrder\<close> that permutes the keys (\<open>permuting\<close>) and, unless they say
  otherwise, for every \<^verbatim>\<open>ResolveLayerOrder\<close> and \<^verbatim>\<open>LayersProvidedByImage\<close>.
\<close>

type_synonym 'v gomap = "(string \<times> 'v) list"

record 'm env =
  ResolveLayerOrder :: "string list \<Rightarrow> Layer gomap \<Rightarrow> string set \<Rightarrow> error + string list"
  LayersProvidedByImage :: "string \<Rightarrow> ('m ResolvedImage) gomap \<Rightarrow> Layer gomap \<Rightarrow> error + string set"
  rangeOrder :: "string list \<Rightarrow> string list"

definition permuting :: "(string list \<Rightarrow> string list) \<Rightarrow> bool" where
  "permuting f \<longleftrightarrow> (\<forall>ks. mset (f ks) = mset ks)"

definition rangeKeys :: "('m, 'x) env_scheme \<Rightarrow> 'v gomap \<Rightarrow> string list" where
  "rangeKeys E m = rangeOrder E (map fst m)"

text \<open>A read \<^verbatim>\<open>m[k]\<close> of a map of integers or of slices: the zero value for a missing key.\<close>

definition intAt :: "int gomap \<Rightarrow> string \<Rightarrow> int" where
  "intAt m k = (case map_of m k of None \<Rightarrow> 0 | Some v \<Rightarrow> v)"

definition listAt :: "(string list) gomap \<Rightarrow> string \<Rightarrow> string list" where
  "listAt m k = (case map_of m k of None \<Rightarrow> [] | Some v \<Rightarrow> v)"

text \<open>
  Modelled from the spec: \<^verbatim>\<open>sortStrings\<close>, which is not among the available sources
  ("lexicographic for image groups, trie children, and names"). Go compares strings byte
  by byte, which is the lexicographic order of \<open>char list\<close>.
\<close>

definition sortStrings :: "string list \<Rightarrow> string list" where
  "sortStrings xs = sort xs"

section \<open>Global layer order (C3)\<close>

subsection \<open>\<^verbatim>\<open>sortByPopularity\<close>\<close>

text \<open>
  The source is an exchange sort in place:
  \<^verbatim>\<open>for i := 0; i < len(s)-1; i++ { for j := i + 1; j < len(s); j++ { ... swap ... } }\<close>.
  \<open>sortInner\<close> is the loop over \<open>j\<close>, \<open>sortOuter\<close> the loop over \<open>i\<close>.
\<close>

function sortInner :: "int gomap \<Rightarrow> nat \<Rightarrow> nat \<Rightarrow> string list \<Rightarrow> string list" where
  "sortInner popularity i j s =
     (if j < length s then
        sortInner popularity i (j + 1)
          (let pi = intAt popularity (s ! i); pj = intAt popularity (s ! j)
           in if pi < pj \<or> (pi = pj \<and> s ! i > s ! j) then s[i := s ! j, j := s ! i] else s)
      else s)"
  by pat_completeness auto
termination
  by (relation "measure (\<lambda>(popularity, i, j, s). length s - j)") (auto simp: Let_def)

declare sortInner.simps [simp del]

lemma length_sortInner [simp]: "length (sortInner popularity i j s) = length s"
  by (induction popularity i j s rule: sortInner.induct)
     (subst sortInner.simps, simp add: Let_def)

function sortOuter :: "int gomap \<Rightarrow> nat \<Rightarrow> string list \<Rightarrow> string list" where
  "sortOuter popularity i s =
     (if i + 1 < length s then sortOuter popularity (i + 1) (sortInner popularity i (i + 1) s)
      else s)"
  by pat_completeness auto
termination
  by (relation "measure (\<lambda>(popularity, i, s). length s - i)") auto

declare sortOuter.simps [simp del]

definition sortByPopularity :: "string list \<Rightarrow> int gomap \<Rightarrow> string list" where
  "sortByPopularity s popularity = sortOuter popularity 0 s"

text \<open>
  The comparison of the sort: \<open>a\<close> ranks before \<open>b\<close> when it is more popular, or equally
  popular and not greater as a string. The source swaps \<^verbatim>\<open>s[i]\<close> and \<^verbatim>\<open>s[j]\<close> exactly when
  \<^verbatim>\<open>s[i]\<close> does not rank before \<^verbatim>\<open>s[j]\<close> (\<open>swap_cond\<close>).
\<close>

definition before :: "int gomap \<Rightarrow> string \<Rightarrow> string \<Rightarrow> bool" where
  "before popularity a b \<longleftrightarrow>
     intAt popularity a > intAt popularity b \<or> (intAt popularity a = intAt popularity b \<and> a \<le> b)"

lemma before_total: "before p a b \<or> before p b a"
  by (auto simp: before_def)

lemma before_trans: "before p a b \<Longrightarrow> before p b c \<Longrightarrow> before p a c"
  by (auto simp: before_def)

lemma before_antisym: "before p a b \<Longrightarrow> before p b a \<Longrightarrow> a = b"
  by (auto simp: before_def)

lemma before_refl: "before p a a"
  by (simp add: before_def)

lemma swap_cond: "(intAt p a < intAt p b \<or> (intAt p a = intAt p b \<and> a > b)) \<longleftrightarrow> \<not> before p a b"
  by (auto simp: before_def)

lemma sortInner_unfold:
  "sortInner p i j s =
     (if j < length s then
        sortInner p i (j + 1) (if before p (s ! i) (s ! j) then s else s[i := s ! j, j := s ! i])
      else s)"
  by (subst sortInner.simps) (simp add: Let_def swap_cond)

lemma sortInner_induct [consumes 1, case_names step stop]:
  assumes "i < j"
    and "\<And>j s. i < j \<Longrightarrow> j < length s \<Longrightarrow>
           P (j + 1) (if before p (s ! i) (s ! j) then s else s[i := s ! j, j := s ! i]) \<Longrightarrow> P j s"
    and "\<And>j s. i < j \<Longrightarrow> \<not> j < length s \<Longrightarrow> P j s"
  shows "P j s"
  using assms(1)
proof (induction "length s - j" arbitrary: j s)
  case 0
  then show ?case using assms(3) by simp
next
  case (Suc n)
  then have j: "j < length s" by simp
  let ?s' = "if before p (s ! i) (s ! j) then s else s[i := s ! j, j := s ! i]"
  have "n = length ?s' - (j + 1)" using Suc.hyps(2) by simp
  then have "P (j + 1) ?s'" using Suc.hyps(1)[of ?s' "j + 1"] Suc.prems by simp
  then show ?case using assms(2) Suc.prems j by simp
qed

lemma mset_sortInner: "i < j \<Longrightarrow> mset (sortInner p i j s) = mset s"
proof (induction j s rule: sortInner_induct[where p = p])
  case (step j s)
  then show ?case by (subst sortInner_unfold) (simp add: mset_swap)
next
  case (stop j s)
  then show ?case by (subst sortInner_unfold) simp
qed

lemma sortInner_prefix: "i < j \<Longrightarrow> k < i \<Longrightarrow> sortInner p i j s ! k = s ! k"
proof (induction j s rule: sortInner_induct[where p = p])
  case (step j s)
  then show ?case by (subst sortInner_unfold) simp
next
  case (stop j s)
  then show ?case by (subst sortInner_unfold) simp
qed

lemma sortInner_min:
  "i < j \<Longrightarrow> \<forall>k. i < k \<and> k < j \<longrightarrow> before p (s ! i) (s ! k)
   \<Longrightarrow> i < k \<Longrightarrow> k < length s \<Longrightarrow> before p (sortInner p i j s ! i) (sortInner p i j s ! k)"
proof (induction j s rule: sortInner_induct[where p = p])
  case (step j s)
  let ?s' = "if before p (s ! i) (s ! j) then s else s[i := s ! j, j := s ! i]"
  have inv: "\<forall>k. i < k \<and> k < j + 1 \<longrightarrow> before p (?s' ! i) (?s' ! k)"
  proof (intro allI impI)
    fix k assume k: "i < k \<and> k < j + 1"
    show "before p (?s' ! i) (?s' ! k)"
    proof (cases "before p (s ! i) (s ! j)")
      case b: True
      then show ?thesis using k step.prems(1) by (cases "k = j") auto
    next
      case nb: False
      have ji: "before p (s ! j) (s ! i)" using nb before_total by blast
      show ?thesis
      proof (cases "k = j")
        case True
        then show ?thesis using nb ji step.hyps by simp
      next
        case False
        with k have kj: "k < j" by simp
        then have "before p (s ! i) (s ! k)" using k step.prems(1) by simp
        then have "before p (s ! j) (s ! k)" using ji before_trans by blast
        then show ?thesis using nb k kj step.hyps by simp
      qed
    qed
  qed
  have "before p (sortInner p i (j + 1) ?s' ! i) (sortInner p i (j + 1) ?s' ! k)"
    by (rule step.IH[OF inv]) (use step.prems in auto)
  then show ?case using step.hyps by (subst (1 2) sortInner_unfold) simp
next
  case (stop j s)
  then show ?case by (subst (1 2) sortInner_unfold) simp
qed

lemma sortInner_suffix_set:
  assumes "i < j" "i \<le> k" "k < length s"
  shows "\<exists>k'. i \<le> k' \<and> k' < length s \<and> sortInner p i j s ! k = s ! k'"
proof -
  let ?r = "sortInner p i j s"
  have tk: "take i ?r = take i s"
    by (rule nth_equalityI) (use assms sortInner_prefix[OF assms(1)] in auto)
  have a: "mset ?r = mset (take i ?r) + mset (drop i ?r)"
    by (metis append_take_drop_id mset_append)
  have b: "mset s = mset (take i s) + mset (drop i s)"
    by (metis append_take_drop_id mset_append)
  have "mset (take i s) + mset (drop i ?r) = mset (take i s) + mset (drop i s)"
    using a b tk mset_sortInner[OF assms(1), of p s] by simp
  then have "mset (drop i ?r) = mset (drop i s)" by simp
  then have "set (drop i ?r) = set (drop i s)" by (rule mset_eq_setD)
  moreover have "drop i ?r ! (k - i) \<in> set (drop i ?r)"
    by (rule nth_mem) (use assms in simp)
  moreover have "drop i ?r ! (k - i) = ?r ! k" using assms by simp
  ultimately have "?r ! k \<in> set (drop i s)" by simp
  then obtain n where "n < length (drop i s)" "drop i s ! n = ?r ! k"
    by (auto simp: in_set_conv_nth)
  then show ?thesis by (intro exI[of _ "i + n"]) auto
qed

lemma sortOuter_sorted:
  "\<forall>a b. a < i \<and> a < b \<and> b < length s \<longrightarrow> before p (s ! a) (s ! b)
   \<Longrightarrow> \<forall>a b. a < b \<and> b < length s \<longrightarrow> before p (sortOuter p i s ! a) (sortOuter p i s ! b)"
proof (induction p i s rule: sortOuter.induct)
  case (1 p i s)
  show ?case
  proof (cases "i + 1 < length s")
    case True
    let ?r = "sortInner p i (i + 1) s"
    have inv: "\<forall>a b. a < i + 1 \<and> a < b \<and> b < length ?r \<longrightarrow> before p (?r ! a) (?r ! b)"
    proof (intro allI impI)
      fix a b assume ab: "a < i + 1 \<and> a < b \<and> b < length ?r"
      show "before p (?r ! a) (?r ! b)"
      proof (cases "a = i")
        case True
        have "before p (?r ! i) (?r ! b)"
          by (rule sortInner_min) (use ab True in auto)
        then show ?thesis using True by simp
      next
        case False
        with ab have ai: "a < i" by simp
        then have ra: "?r ! a = s ! a" by (simp add: sortInner_prefix)
        show ?thesis
        proof (cases "b < i")
          case True
          then have "?r ! b = s ! b" by (simp add: sortInner_prefix)
          then show ?thesis using ra ai ab "1.prems" by simp
        next
          case False
          then obtain k' where "i \<le> k'" "k' < length s" "?r ! b = s ! k'"
            using sortInner_suffix_set[of i "i + 1" b s p] ab by auto
          then show ?thesis using ra ai "1.prems" by simp
        qed
      qed
    qed
    have "\<forall>a b. a < b \<and> b < length ?r \<longrightarrow>
            before p (sortOuter p (i + 1) ?r ! a) (sortOuter p (i + 1) ?r ! b)"
      by (rule "1.IH"[OF True inv])
    then show ?thesis using True by (subst (1 2) sortOuter.simps) simp
  next
    case False
    have "\<forall>a b. a < b \<and> b < length s \<longrightarrow> before p (s ! a) (s ! b)"
    proof (intro allI impI)
      fix a b assume "a < b \<and> b < length s"
      with False have "a < i" by simp
      then show "before p (s ! a) (s ! b)" using "1.prems" \<open>a < b \<and> b < length s\<close> by simp
    qed
    then show ?thesis using False by (subst (1 2) sortOuter.simps) simp
  qed
qed

lemma length_sortOuter [simp]: "length (sortOuter p i s) = length s"
  by (induction p i s rule: sortOuter.induct) (subst sortOuter.simps, simp)

lemma mset_sortOuter: "mset (sortOuter p i s) = mset s"
  by (induction p i s rule: sortOuter.induct)
     (subst sortOuter.simps, simp add: mset_sortInner)

lemma mset_sortByPopularity [simp]: "mset (sortByPopularity s p) = mset s"
  by (simp add: sortByPopularity_def mset_sortOuter)

lemma set_sortByPopularity [simp]: "set (sortByPopularity s p) = set s"
  by (rule mset_eq_setD) simp

lemma distinct_sortByPopularity [simp]: "distinct (sortByPopularity s p) = distinct s"
  by (metis mset_sortByPopularity mset_eq_imp_distinct_iff)

lemma sorted_sortByPopularity: "sorted_wrt (before p) (sortByPopularity s p)"
  using sortOuter_sorted[of 0 s p]
  by (simp add: sortByPopularity_def sorted_wrt_iff_nth_less)

lemma sortByPopularity_head:
  "sortByPopularity s p = x # xs \<Longrightarrow> y \<in> set s \<Longrightarrow> before p x y"
proof -
  assume eq: "sortByPopularity s p = x # xs" and y: "y \<in> set s"
  have "sorted_wrt (before p) (x # xs)" using sorted_sortByPopularity[of p s] eq by simp
  moreover have "y \<in> set (x # xs)" using set_sortByPopularity[of s p] eq y by simp
  ultimately show ?thesis by (auto simp: before_refl)
qed

text \<open>The result depends on the elements only, not on the order in which they were queued.\<close>

lemma sorted_wrt_before_unique:
  "sorted_wrt (before p) xs \<Longrightarrow> sorted_wrt (before p) ys \<Longrightarrow> mset xs = mset ys \<Longrightarrow> xs = ys"
proof (induction xs arbitrary: ys)
  case Nil
  then show ?case by simp
next
  case (Cons x xs)
  then obtain y ys' where ys: "ys = y # ys'" by (cases ys) auto
  have "x \<in> set ys" using Cons.prems(3) by (metis list.set_intros(1) mset_eq_setD)
  then have yx: "before p y x" using Cons.prems(2) ys by (auto simp: before_refl)
  have "y \<in> set (x # xs)" using Cons.prems(3) ys by (metis list.set_intros(1) mset_eq_setD)
  then have "before p x y" using Cons.prems(1) by (auto simp: before_refl)
  with yx have "x = y" by (rule before_antisym[rotated])
  then show ?case using Cons ys by simp
qed

lemma sortByPopularity_perm:
  "mset s = mset t \<Longrightarrow> sortByPopularity s p = sortByPopularity t p"
  by (rule sorted_wrt_before_unique[of p]) (simp_all add: sorted_sortByPopularity)

subsection \<open>\<^verbatim>\<open>topoSortByPopularity\<close>\<close>

text \<open>
  Lines 77 to 82: \<^verbatim>\<open>inDegree[node] = len(graph[node])\<close> and, for each dependency,
  \<^verbatim>\<open>reverseGraph[dep] = append(reverseGraph[dep], node)\<close>, for the nodes in the order of the
  \<^verbatim>\<open>range\<close> over \<^verbatim>\<open>graph\<close>.
\<close>

definition addReverse :: "string \<Rightarrow> string list \<Rightarrow> (string list) gomap \<Rightarrow> (string list) gomap" where
  "addReverse node deps reverseGraph =
     fold (\<lambda>dep rg. AList.update dep (listAt rg dep @ [node]) rg) deps reverseGraph"

definition initDegrees ::
  "('m, 'x) env_scheme \<Rightarrow> (string list) gomap \<Rightarrow> int gomap \<times> (string list) gomap" where
  "initDegrees E graph =
     fold (\<lambda>node (inDegree, reverseGraph).
             (AList.update node (int (length (listAt graph node))) inDegree,
              addReverse node (listAt graph node) reverseGraph))
          (rangeKeys E graph) ([], [])"

text \<open>Lines 85 to 90: the nodes with no dependencies, in the order of the \<^verbatim>\<open>range\<close> over
  \<^verbatim>\<open>inDegree\<close>.\<close>

definition initQueue :: "('m, 'x) env_scheme \<Rightarrow> int gomap \<Rightarrow> string list" where
  "initQueue E inDegree = filter (\<lambda>node. intAt inDegree node = 0) (rangeKeys E inDegree)"

text \<open>Lines 99 to 105: \<^verbatim>\<open>inDegree[dep]--\<close> for every dependent, which joins the queue when
  its count reaches zero.\<close>

definition relax :: "string list \<Rightarrow> int gomap \<times> string list \<Rightarrow> int gomap \<times> string list" where
  "relax dependents st =
     fold (\<lambda>dep (inDegree, queue).
             let inDegree' = AList.update dep (intAt inDegree dep - 1) inDegree
             in (inDegree', if intAt inDegree' dep = 0 then queue @ [dep] else queue))
          dependents st"

text \<open>
  Lines 93 to 107, the loop \<^verbatim>\<open>for len(queue) > 0\<close>. Nothing in its text bounds the number of
  rounds, so it is a partial function: \<open>None\<close> would be a run that never leaves the loop.
  That it always returns is part of the theorems below.
\<close>

partial_function (option) kahnLoop ::
  "int gomap \<Rightarrow> (string list) gomap \<Rightarrow> string list \<Rightarrow> int gomap \<Rightarrow> string list \<Rightarrow> string list option" where
  "kahnLoop popularity reverseGraph queue inDegree result =
     (case queue of
        [] \<Rightarrow> Some result
      | node # rest \<Rightarrow>
          (case relax (listAt reverseGraph node) (inDegree, rest) of
             (inDegree', queue') \<Rightarrow>
               kahnLoop popularity reverseGraph (sortByPopularity queue' popularity) inDegree'
                 (result @ [node])))"

text \<open>The nodes emitted by the loop, before the length check of line 109.\<close>

definition kahnEmitted ::
  "('m, 'x) env_scheme \<Rightarrow> (string list) gomap \<Rightarrow> int gomap \<Rightarrow> string list option" where
  "kahnEmitted E graph popularity =
     (case initDegrees E graph of
        (inDegree, reverseGraph) \<Rightarrow>
          kahnLoop popularity reverseGraph
            (sortByPopularity (initQueue E inDegree) popularity) inDegree [])"

definition topoSortByPopularity ::
  "('m, 'x) env_scheme \<Rightarrow> (string list) gomap \<Rightarrow> int gomap \<Rightarrow> (error + string list) option" where
  "topoSortByPopularity E graph popularity =
     (case kahnEmitted E graph popularity of
        None \<Rightarrow> None
      | Some result \<Rightarrow>
          Some (if length result \<noteq> length graph then Inl CycleDetected else Inr result))"

declare kahnLoop.simps [code]

subsection \<open>Kahn's algorithm: the invariant of the loop\<close>

text \<open>The keys of a map.\<close>

definition keysOf :: "'v gomap \<Rightarrow> string set" where
  "keysOf m = fst ` set m"

lemma intAt_update [simp]: "intAt (AList.update k v m) x = (if x = k then v else intAt m x)"
  by (simp add: intAt_def update_conv')

lemma listAt_update [simp]: "listAt (AList.update k v m) x = (if x = k then v else listAt m x)"
  by (simp add: listAt_def update_conv')

lemma intAt_Nil [simp]: "intAt [] x = 0"
  by (simp add: intAt_def)

lemma listAt_Nil [simp]: "listAt [] x = []"
  by (simp add: listAt_def)

lemma fold_pair_split:
  "fold (\<lambda>x (a, b). (f x a, g x b)) xs (a0, b0) = (fold f xs a0, fold g xs b0)"
  by (induction xs arbitrary: a0 b0) auto

lemma permuting_set [simp]: "permuting f \<Longrightarrow> set (f ks) = set ks"
  by (metis permuting_def mset_eq_setD)

lemma permuting_distinct [simp]: "permuting f \<Longrightarrow> distinct (f ks) = distinct ks"
  by (metis permuting_def mset_eq_imp_distinct_iff)

lemma permuting_length [simp]: "permuting f \<Longrightarrow> length (f ks) = length ks"
  by (metis permuting_def mset_eq_length)

subsection \<open>The two maps built before the loop\<close>

lemma intAt_fold_update:
  "intAt (fold (\<lambda>n. AList.update n (c n)) ks m) x = (if x \<in> set ks then c x else intAt m x)"
  by (induction ks arbitrary: m) auto

lemma keys_fold_update:
  "fst ` set (fold (\<lambda>n. AList.update n (c n)) ks m) = set ks \<union> fst ` set m"
  by (induction ks arbitrary: m) (auto simp: dom_update)

lemma distinct_fold_update:
  "distinct (map fst m) \<Longrightarrow> distinct (map fst (fold (\<lambda>n. AList.update n (c n)) ks m))"
  by (induction ks arbitrary: m) (auto simp: distinct_update)

lemma count_addReverse:
  "count_list (listAt (addReverse node deps rg) x) m =
     count_list (listAt rg x) m + (if m = node then count_list deps x else 0)"
  unfolding addReverse_def
  by (induction deps arbitrary: rg) auto

lemma count_fold_addReverse:
  "distinct ks \<Longrightarrow>
   count_list (listAt (fold (\<lambda>n. addReverse n (d n)) ks rg) x) m =
     count_list (listAt rg x) m + (if m \<in> set ks then count_list (d m) x else 0)"
  by (induction ks arbitrary: rg) (auto simp: count_addReverse)

text \<open>\<^verbatim>\<open>reverseGraph[x]\<close> holds \<open>m\<close> once for every occurrence of \<open>x\<close> in \<^verbatim>\<open>graph[m]\<close>.\<close>

definition revOk :: "(string list) gomap \<Rightarrow> (string list) gomap \<Rightarrow> bool" where
  "revOk graph reverseGraph \<longleftrightarrow>
     (\<forall>x m. count_list (listAt reverseGraph x) m =
        (if m \<in> keysOf graph then count_list (listAt graph m) x else 0))"

lemma initDegrees_props:
  assumes "permuting (rangeOrder E)" "distinct (map fst graph)"
    and "initDegrees E graph = (inDegree, reverseGraph)"
  shows "revOk graph reverseGraph"
    and "\<forall>n \<in> keysOf graph. intAt inDegree n = int (length (listAt graph n))"
    and "keysOf inDegree = keysOf graph"
    and "distinct (map fst inDegree)"
proof -
  let ?ks = "rangeKeys E graph"
  have ks: "set ?ks = keysOf graph" "distinct ?ks"
    using assms(1,2) by (simp_all add: rangeKeys_def keysOf_def)
  have split: "inDegree = fold (\<lambda>n. AList.update n (int (length (listAt graph n)))) ?ks []"
    "reverseGraph = fold (\<lambda>n. addReverse n (listAt graph n)) ?ks []"
    using assms(3) unfolding initDegrees_def by (simp_all add: fold_pair_split)
  show "revOk graph reverseGraph"
    unfolding revOk_def split using ks by (simp add: count_fold_addReverse)
  show "\<forall>n \<in> keysOf graph. intAt inDegree n = int (length (listAt graph n))"
    unfolding split using ks by (simp add: intAt_fold_update)
  show "keysOf inDegree = keysOf graph"
    unfolding split keysOf_def using ks by (simp add: keys_fold_update keysOf_def)
  show "distinct (map fst inDegree)"
    unfolding split by (rule distinct_fold_update) simp
qed

subsection \<open>One round of the loop\<close>

lemma relax_props:
  "relax ds (deg, q) = (deg', q') \<Longrightarrow>
   (\<forall>m. intAt deg' m = intAt deg m - int (count_list ds m)) \<and>
   (\<exists>xs. q' = q @ xs \<and> distinct xs \<and>
      set xs = {m \<in> set ds. 1 \<le> intAt deg m \<and> intAt deg m \<le> int (count_list ds m)})"
proof (induction ds arbitrary: deg q)
  case Nil
  then show ?case by (simp add: relax_def)
next
  case (Cons d ds)
  let ?deg1 = "AList.update d (intAt deg d - 1) deg"
  let ?q1 = "if intAt deg d - 1 = 0 then q @ [d] else q"
  have "relax ds (?deg1, ?q1) = (deg', q')"
    using Cons.prems by (simp add: relax_def Let_def)
  from Cons.IH[OF this] obtain xs where
    deg': "\<forall>m. intAt deg' m = intAt ?deg1 m - int (count_list ds m)"
    and q': "q' = ?q1 @ xs" and dxs: "distinct xs"
    and sxs: "set xs = {m \<in> set ds. 1 \<le> intAt ?deg1 m \<and> intAt ?deg1 m \<le> int (count_list ds m)}"
    by blast
  have A: "\<forall>m. intAt deg' m = intAt deg m - int (count_list (d # ds) m)"
    using deg' by auto
  let ?ys = "(if intAt deg d - 1 = 0 then [d] else []) @ xs"
  have B: "q' = q @ ?ys" using q' by simp
  have dnot: "intAt deg d - 1 = 0 \<Longrightarrow> d \<notin> set xs" using sxs by auto
  have C: "distinct ?ys" using dxs dnot by auto
  have D: "set ?ys = {m \<in> set (d # ds). 1 \<le> intAt deg m \<and> intAt deg m \<le> int (count_list (d # ds) m)}"
  proof (rule set_eqI)
    fix m
    show "m \<in> set ?ys \<longleftrightarrow>
          m \<in> {m \<in> set (d # ds). 1 \<le> intAt deg m \<and> intAt deg m \<le> int (count_list (d # ds) m)}"
    proof (cases "m = d")
      case True
      have xs_d: "d \<in> set xs \<longleftrightarrow>
                   d \<in> set ds \<and> 2 \<le> intAt deg d \<and> intAt deg d \<le> int (count_list ds d) + 1"
        using sxs by auto
      have cnt: "d \<notin> set ds \<Longrightarrow> count_list ds d = 0" by (simp add: count_notin)
      have ys_d: "d \<in> set ?ys \<longleftrightarrow> intAt deg d = 1 \<or> d \<in> set xs" by auto
      have "d \<in> set ?ys \<longleftrightarrow> 1 \<le> intAt deg d \<and> intAt deg d \<le> int (count_list ds d) + 1"
        unfolding ys_d xs_d using cnt by (cases "d \<in> set ds") auto
      then show ?thesis using True by (simp add: add.commute)
    next
      case False
      have "m \<in> set xs \<longleftrightarrow> m \<in> set ds \<and> 1 \<le> intAt deg m \<and> intAt deg m \<le> int (count_list ds m)"
        using sxs False by simp
      moreover have "m \<in> set ?ys \<longleftrightarrow> m \<in> set xs" using False by simp
      ultimately show ?thesis using False by simp
    qed
  qed
  show ?case using A B C D by blast
qed


lemma length_filter_insert:
  "node \<notin> R \<Longrightarrow>
   int (length (filter (\<lambda>d. d \<notin> R) ds)) - int (count_list ds node)
     = int (length (filter (\<lambda>d. d \<notin> insert node R) ds))"
  by (induction ds) auto

text \<open>
  What holds of the emitted list \<open>r\<close> at every moment: its nodes are distinct nodes of the
  graph, each emitted after all its dependencies, and each ranking before every node that
  was a candidate (not emitted, all dependencies emitted) when it was emitted.
\<close>

definition kahnTrace :: "(string list) gomap \<Rightarrow> int gomap \<Rightarrow> string list \<Rightarrow> bool" where
  "kahnTrace graph popularity r \<longleftrightarrow>
     distinct r \<and> set r \<subseteq> keysOf graph \<and>
     (\<forall>i < length r. set (listAt graph (r ! i)) \<subseteq> set (take i r)) \<and>
     (\<forall>i < length r. \<forall>m \<in> keysOf graph.
        m \<notin> set (take i r) \<and> set (listAt graph m) \<subseteq> set (take i r) \<longrightarrow>
          before popularity (r ! i) m)"

text \<open>
  The invariant of the loop: \<^verbatim>\<open>inDegree[n]\<close> counts the dependencies of \<open>n\<close> not yet emitted,
  and the queue holds, sorted, exactly the candidates.
\<close>

definition kahnInv ::
  "(string list) gomap \<Rightarrow> int gomap \<Rightarrow> string list \<Rightarrow> int gomap \<Rightarrow> string list \<Rightarrow> bool" where
  "kahnInv graph popularity queue inDegree r \<longleftrightarrow>
     kahnTrace graph popularity r \<and>
     (\<forall>n \<in> keysOf graph.
        intAt inDegree n = int (length (filter (\<lambda>d. d \<notin> set r) (listAt graph n)))) \<and>
     distinct queue \<and>
     set queue = {n \<in> keysOf graph. n \<notin> set r \<and> intAt inDegree n = 0} \<and>
     sorted_wrt (before popularity) queue"

lemma kahnTrace_snoc:
  assumes "kahnTrace graph p r" "node \<in> keysOf graph" "node \<notin> set r"
    and "set (listAt graph node) \<subseteq> set r"
    and "\<forall>m \<in> keysOf graph. m \<notin> set r \<and> set (listAt graph m) \<subseteq> set r \<longrightarrow> before p node m"
  shows "kahnTrace graph p (r @ [node])"
  unfolding kahnTrace_def
proof (intro conjI allI impI ballI)
  show "distinct (r @ [node])" using assms(1,3) by (simp add: kahnTrace_def)
  show "set (r @ [node]) \<subseteq> keysOf graph" using assms(1,2) by (simp add: kahnTrace_def)
next
  fix i assume i: "i < length (r @ [node])"
  show "set (listAt graph ((r @ [node]) ! i)) \<subseteq> set (take i (r @ [node]))"
  proof (cases "i < length r")
    case True
    then show ?thesis using assms(1) by (simp add: kahnTrace_def nth_append)
  next
    case False
    with i have "i = length r" by simp
    then show ?thesis using assms(4) by simp
  qed
next
  fix i m assume i: "i < length (r @ [node])" and m: "m \<in> keysOf graph"
    and c: "m \<notin> set (take i (r @ [node])) \<and> set (listAt graph m) \<subseteq> set (take i (r @ [node]))"
  show "before p ((r @ [node]) ! i) m"
  proof (cases "i < length r")
    case True
    then show ?thesis using assms(1) m c by (simp add: kahnTrace_def nth_append)
  next
    case False
    with i have "i = length r" by simp
    then show ?thesis using assms(5) m c by simp
  qed
qed

lemma kahnTrace_emitted_deps:
  assumes "kahnTrace graph p r" "n \<in> set r"
  shows "set (listAt graph n) \<subseteq> set r"
proof -
  from assms(2) obtain i where i: "i < length r" "r ! i = n" by (auto simp: in_set_conv_nth)
  then have "set (listAt graph n) \<subseteq> set (take i r)" using assms(1) by (auto simp: kahnTrace_def)
  then show ?thesis using set_take_subset by fast
qed

lemma kahnInv_step:
  assumes inv: "kahnInv graph p (node # rest) deg r"
    and rev: "revOk graph reverseGraph"
    and rel: "relax (listAt reverseGraph node) (deg, rest) = (deg', q')"
  shows "kahnInv graph p (sortByPopularity q' p) deg' (r @ [node])"
    and "node \<in> keysOf graph" and "node \<notin> set r"
proof -
  let ?N = "keysOf graph"
  let ?ds = "listAt reverseGraph node"
  from inv have tr: "kahnTrace graph p r"
    and degr: "\<forall>n \<in> ?N. intAt deg n = int (length (filter (\<lambda>d. d \<notin> set r) (listAt graph n)))"
    and dq: "distinct (node # rest)"
    and sq: "set (node # rest) = {n \<in> ?N. n \<notin> set r \<and> intAt deg n = 0}"
    and sorted: "sorted_wrt (before p) (node # rest)"
    by (simp_all add: kahnInv_def)
  have inq: "\<And>n. n \<in> set (node # rest) \<longleftrightarrow> n \<in> ?N \<and> n \<notin> set r \<and> intAt deg n = 0"
    unfolding sq by simp
  from inq[of node] have nodeN: "node \<in> ?N" and nodeR: "node \<notin> set r" and node0: "intAt deg node = 0"
    by auto
  show "node \<in> ?N" by fact
  show "node \<notin> set r" by fact
  have zero_deps: "\<And>n. n \<in> ?N \<Longrightarrow> intAt deg n = 0 \<longleftrightarrow> set (listAt graph n) \<subseteq> set r"
    using degr by (auto simp: filter_empty_conv)
  have node_deps: "set (listAt graph node) \<subseteq> set r" using zero_deps nodeN node0 by simp
  have cnt: "\<And>m. count_list ?ds m = (if m \<in> ?N then count_list (listAt graph m) node else 0)"
    using rev by (simp add: revOk_def)
  from relax_props[OF rel] obtain xs where
    deg': "\<forall>m. intAt deg' m = intAt deg m - int (count_list ?ds m)"
    and q': "q' = rest @ xs" and dxs: "distinct xs"
    and sxs: "set xs = {m \<in> set ?ds. 1 \<le> intAt deg m \<and> intAt deg m \<le> int (count_list ?ds m)}"
    by blast
  have degr': "\<forall>n \<in> ?N. intAt deg' n
                 = int (length (filter (\<lambda>d. d \<notin> set (r @ [node])) (listAt graph n)))"
  proof
    fix n assume n: "n \<in> ?N"
    have "intAt deg' n = int (length (filter (\<lambda>d. d \<notin> set r) (listAt graph n)))
                          - int (count_list (listAt graph n) node)"
      using deg' degr n cnt by simp
    also have "\<dots> = int (length (filter (\<lambda>d. d \<notin> insert node (set r)) (listAt graph n)))"
      by (rule length_filter_insert[OF nodeR])
    finally show "intAt deg' n = int (length (filter (\<lambda>d. d \<notin> set (r @ [node])) (listAt graph n)))"
      by simp
  qed
  have ds_N: "set ?ds \<subseteq> ?N"
  proof
    fix m assume "m \<in> set ?ds"
    then have "count_list ?ds m \<noteq> 0" by (simp add: count_list_0_iff)
    then show "m \<in> ?N" using cnt[of m] by (auto split: if_splits)
  qed
  have deg_nonneg: "\<And>n. n \<in> ?N \<Longrightarrow> 0 \<le> intAt deg n" using degr by simp
  have deg'_nonneg: "\<And>n. n \<in> ?N \<Longrightarrow> 0 \<le> intAt deg' n" using degr' by simp
  have emitted0: "\<And>n. n \<in> set r \<Longrightarrow> intAt deg n = 0"
  proof -
    fix n assume n: "n \<in> set r"
    then have "n \<in> ?N" using tr by (auto simp: kahnTrace_def)
    then show "intAt deg n = 0" using zero_deps kahnTrace_emitted_deps[OF tr n] by simp
  qed
  have set_q': "set q' = {n \<in> ?N. n \<notin> set (r @ [node]) \<and> intAt deg' n = 0}"
  proof (rule set_eqI)
    fix n
    show "n \<in> set q' \<longleftrightarrow> n \<in> {n \<in> ?N. n \<notin> set (r @ [node]) \<and> intAt deg' n = 0}"
    proof
      assume "n \<in> set q'"
      then consider (a) "n \<in> set rest" | (b) "n \<in> set xs" using q' by auto
      then show "n \<in> {n \<in> ?N. n \<notin> set (r @ [node]) \<and> intAt deg' n = 0}"
      proof cases
        case a
        then have n: "n \<in> ?N" "n \<notin> set r" "intAt deg n = 0" using inq[of n] by auto
        have "n \<noteq> node" using a dq by auto
        moreover have "node \<notin> set (listAt graph n)" using zero_deps n nodeR by auto
        then have "count_list ?ds n = 0" using cnt[of n] n by (simp add: count_notin)
        then have "intAt deg' n = 0" using deg' n by simp
        ultimately show ?thesis using n by simp
      next
        case b
        then have n: "n \<in> set ?ds" "1 \<le> intAt deg n" "intAt deg n \<le> int (count_list ?ds n)"
          using sxs by auto
        then have nN: "n \<in> ?N" using ds_N by auto
        have "n \<notin> set r" using emitted0[of n] n by auto
        moreover have "n \<noteq> node" using node0 n by auto
        moreover have "intAt deg' n = 0" using deg' n deg'_nonneg[OF nN] by (simp add: order.antisym)
        ultimately show ?thesis using nN by simp
      qed
    next
      assume "n \<in> {n \<in> ?N. n \<notin> set (r @ [node]) \<and> intAt deg' n = 0}"
      then have n: "n \<in> ?N" "n \<notin> set r" "n \<noteq> node" "intAt deg' n = 0" by auto
      show "n \<in> set q'"
      proof (cases "intAt deg n = 0")
        case True
        then have "n \<in> set (node # rest)" using inq[of n] n by simp
        then show ?thesis using n q' by simp
      next
        case False
        then have pos: "1 \<le> intAt deg n" using deg_nonneg[OF n(1)] by simp
        have eq: "intAt deg n = int (count_list ?ds n)" using deg' n by simp
        then have "count_list ?ds n \<noteq> 0" using pos by auto
        then have "n \<in> set ?ds" by (simp add: count_list_0_iff)
        then have "n \<in> set xs" using sxs pos eq by simp
        then show ?thesis using q' by simp
      qed
    qed
  qed
  have dist_q': "distinct q'"
  proof -
    have "set rest \<inter> set xs = {}"
    proof (rule ccontr)
      assume "set rest \<inter> set xs \<noteq> {}"
      then obtain n where "n \<in> set rest" "n \<in> set xs" by auto
      then have "intAt deg n = 0" "1 \<le> intAt deg n" using inq[of n] sxs by auto
      then show False by simp
    qed
    then show ?thesis using q' dq dxs by simp
  qed
  have head: "\<forall>m \<in> ?N. m \<notin> set r \<and> set (listAt graph m) \<subseteq> set r \<longrightarrow> before p node m"
  proof (intro ballI impI)
    fix m assume m: "m \<in> ?N" and c: "m \<notin> set r \<and> set (listAt graph m) \<subseteq> set r"
    then have "intAt deg m = 0" using zero_deps by simp
    then have "m \<in> set (node # rest)" using inq[of m] m c by simp
    then show "before p node m" using sorted by (auto simp: before_refl)
  qed
  have tr': "kahnTrace graph p (r @ [node])"
    by (rule kahnTrace_snoc[OF tr nodeN nodeR node_deps head])
  show "kahnInv graph p (sortByPopularity q' p) deg' (r @ [node])"
    unfolding kahnInv_def using tr' degr' dist_q' set_q' sorted_sortByPopularity[of p q']
    by simp
qed


subsection \<open>The loop returns, and what it returns\<close>

text \<open>When the loop ends, every node left has a dependency that was never emitted.\<close>

definition stuck :: "(string list) gomap \<Rightarrow> string list \<Rightarrow> bool" where
  "stuck graph r \<longleftrightarrow>
     (\<forall>n \<in> keysOf graph. n \<notin> set r \<longrightarrow> (\<exists>d \<in> set (listAt graph n). d \<notin> set r))"

lemma finite_keysOf [simp]: "finite (keysOf m)"
  by (simp add: keysOf_def)

lemma kahnLoop_returns:
  assumes rev: "revOk graph reverseGraph"
  shows "kahnInv graph p q deg r \<Longrightarrow>
         \<exists>out. kahnLoop p reverseGraph q deg r = Some out \<and> kahnTrace graph p out \<and> stuck graph out"
proof (induction "card (keysOf graph - set r)" arbitrary: q deg r rule: less_induct)
  case less
  show ?case
  proof (cases q)
    case Nil
    have "stuck graph r"
      unfolding stuck_def
    proof (intro ballI impI)
      fix n assume n: "n \<in> keysOf graph" "n \<notin> set r"
      have "n \<notin> set q" using Nil by simp
      then have "intAt deg n \<noteq> 0" using less.prems n by (auto simp: kahnInv_def)
      then have "filter (\<lambda>d. d \<notin> set r) (listAt graph n) \<noteq> []"
        using less.prems n by (auto simp: kahnInv_def)
      then show "\<exists>d \<in> set (listAt graph n). d \<notin> set r"
        by (auto simp: filter_empty_conv)
    qed
    moreover have "kahnTrace graph p r" using less.prems by (simp add: kahnInv_def)
    ultimately show ?thesis using Nil by (subst kahnLoop.simps) simp
  next
    case (Cons node rest)
    obtain deg' q' where rel: "relax (listAt reverseGraph node) (deg, rest) = (deg', q')"
      by (cases "relax (listAt reverseGraph node) (deg, rest)") auto
    have inv: "kahnInv graph p (node # rest) deg r" using less.prems Cons by simp
    note step = kahnInv_step[OF inv rev rel]
    have "keysOf graph - set (r @ [node]) \<subset> keysOf graph - set r"
      using step(2,3) by auto
    then have "card (keysOf graph - set (r @ [node])) < card (keysOf graph - set r)"
      by (intro psubset_card_mono) simp_all
    from less.hyps[OF this step(1)]
    obtain out where "kahnLoop p reverseGraph (sortByPopularity q' p) deg' (r @ [node]) = Some out"
      "kahnTrace graph p out" "stuck graph out" by blast
    then show ?thesis using Cons rel by (subst kahnLoop.simps) simp
  qed
qed

lemma kahnEmitted_returns:
  assumes "permuting (rangeOrder E)" "distinct (map fst graph)"
  shows "\<exists>out. kahnEmitted E graph p = Some out \<and> kahnTrace graph p out \<and> stuck graph out"
proof -
  obtain inDegree reverseGraph where init: "initDegrees E graph = (inDegree, reverseGraph)"
    by (cases "initDegrees E graph") auto
  note props = initDegrees_props[OF assms init]
  let ?q = "sortByPopularity (initQueue E inDegree) p"
  have "set (initQueue E inDegree) = {n \<in> keysOf graph. intAt inDegree n = 0}"
    using props(3) assms(1) by (auto simp: initQueue_def rangeKeys_def keysOf_def)
  moreover have "distinct (initQueue E inDegree)"
    using props(4) assms(1) by (simp add: initQueue_def rangeKeys_def)
  moreover have "kahnTrace graph p []" by (simp add: kahnTrace_def)
  ultimately have "kahnInv graph p ?q inDegree []"
    using props(2) by (simp add: kahnInv_def sorted_sortByPopularity)
  from kahnLoop_returns[OF props(1) this] show ?thesis
    by (simp add: kahnEmitted_def init)
qed

text \<open>Every node is emitted if and only if the count of line 109 agrees.\<close>

lemma kahnTrace_length:
  assumes "distinct (map fst graph)" "kahnTrace graph p r"
  shows "length r \<le> length graph" and "length r = length graph \<longleftrightarrow> set r = keysOf graph"
proof -
  have cardN: "card (keysOf graph) = length graph"
    using assms(1) distinct_card[of "map fst graph"] by (simp add: keysOf_def)
  have r: "distinct r" "set r \<subseteq> keysOf graph" using assms(2) by (simp_all add: kahnTrace_def)
  have cardr: "card (set r) = length r" using r(1) by (simp add: distinct_card)
  show "length r \<le> length graph"
    using card_mono[OF finite_keysOf r(2)] cardN cardr by simp
  show "length r = length graph \<longleftrightarrow> set r = keysOf graph"
    using card_subset_eq[OF finite_keysOf r(2)] cardN cardr by auto
qed

lemma kahnTrace_index:
  assumes "kahnTrace graph p r" "v \<in> set r" "u \<in> set (listAt graph v)"
  shows "\<exists>i j. i < j \<and> j < length r \<and> r ! i = u \<and> r ! j = v"
proof -
  from assms(2) obtain j where j: "j < length r" "r ! j = v" by (auto simp: in_set_conv_nth)
  then have "u \<in> set (take j r)" using assms(1,3) by (auto simp: kahnTrace_def)
  then obtain i where "i < length (take j r)" "take j r ! i = u" by (auto simp: in_set_conv_nth)
  then have "i < j" "r ! i = u" by simp_all
  then show ?thesis using j by blast
qed

subsection \<open>\<^verbatim>\<open>collectAllImageLayers\<close> and \<^verbatim>\<open>AbsoluteLayerSequence\<close>\<close>

text \<open>
  Lines 146 to 151 (and 39 to 44): append the layers not seen so far. The source keeps a
  map \<^verbatim>\<open>seen\<close> next to the slice \<^verbatim>\<open>result\<close> and writes both together, so \<^verbatim>\<open>seen[l]\<close> holds
  exactly when \<open>l\<close> is in \<^verbatim>\<open>result\<close>.
\<close>

definition appendUnseen :: "string list \<Rightarrow> string list \<Rightarrow> string list" where
  "appendUnseen ls result =
     fold (\<lambda>l result. if l \<in> set result then result else result @ [l]) ls result"

text \<open>
  The closure \<^verbatim>\<open>walk\<close> of \<^verbatim>\<open>collectAllImageLayers\<close>, with the slice it appends to as an
  argument. It calls itself on the base of an image whose base is not external, with
  nothing to stop it on a cyclic base chain: it is a partial function, and \<open>None\<close> is a
  run that does not return. An error of \<^verbatim>\<open>ResolveLayerOrder\<close> is dropped (\<^verbatim>\<open>return\<close>).
\<close>

partial_function (option) walk ::
  "('m, 'x) env_scheme \<Rightarrow> ('m ResolvedImage) gomap \<Rightarrow> Layer gomap \<Rightarrow> string \<Rightarrow> string list
     \<Rightarrow> string list option" where
  "walk E images layers name result =
     (case map_of images name of
        None \<Rightarrow> Some result
      | Some img \<Rightarrow>
          Option.bind
            (if \<not> IsExternalBase img then walk E images layers (Base img) result else Some result)
            (\<lambda>result'.
               case ResolveLayerOrder E (Layers img) layers {} of
                 Inl err \<Rightarrow> Some result'
               | Inr resolved \<Rightarrow> Some (appendUnseen resolved result')))"

declare walk.simps [code]

definition collectAllImageLayers ::
  "('m, 'x) env_scheme \<Rightarrow> string \<Rightarrow> ('m ResolvedImage) gomap \<Rightarrow> Layer gomap \<Rightarrow> string list option" where
  "collectAllImageLayers E imageName images layers = walk E images layers imageName []"

definition AbsoluteLayerSequence ::
  "('m, 'x) env_scheme \<Rightarrow> string \<Rightarrow> ('m ResolvedImage) gomap \<Rightarrow> Layer gomap \<Rightarrow> string list
     \<Rightarrow> string list option" where
  "AbsoluteLayerSequence E imageName images layers globalOrder =
     (case collectAllImageLayers E imageName images layers of
        None \<Rightarrow> None
      | Some allLayers \<Rightarrow> Some (filter (\<lambda>l. l \<in> set allLayers) globalOrder))"

subsection \<open>\<^verbatim>\<open>GlobalLayerOrder\<close>\<close>

text \<open>
  Lines 28 to 44, the body of the loop over the images: the layers an image needs, or the
  error of \<^verbatim>\<open>ResolveLayerOrder\<close> wrapped with the image's name.
\<close>

definition allLayersOf ::
  "('m, 'x) env_scheme \<Rightarrow> ('m ResolvedImage) gomap \<Rightarrow> Layer gomap \<Rightarrow> 'm ResolvedImage
     \<Rightarrow> (error + string list) option" where
  "allLayersOf E images layers img =
     (case ResolveLayerOrder E (Layers img) layers {} of
        Inl err \<Rightarrow> Some (Inl (ResolvingLayers (Name img) err))
      | Inr resolved \<Rightarrow>
          (case collectAllImageLayers E (Name img) images layers of
             None \<Rightarrow> None
           | Some allLayers \<Rightarrow> Some (Inr (appendUnseen resolved allLayers))))"

text \<open>Lines 45 to 47: \<^verbatim>\<open>popularity[l]++\<close> for every layer of the list.\<close>

definition bump :: "string list \<Rightarrow> int gomap \<Rightarrow> int gomap" where
  "bump allLayers popularity =
     fold (\<lambda>l popularity. AList.update l (intAt popularity l + 1) popularity) allLayers popularity"

text \<open>
  Lines 27 to 48, the loop over the images, given the keys still to visit. A key of the
  \<^verbatim>\<open>range\<close> always has its entry; the first error ends the loop.
\<close>

fun countPopularity ::
  "('m, 'x) env_scheme \<Rightarrow> ('m ResolvedImage) gomap \<Rightarrow> Layer gomap \<Rightarrow> string list \<Rightarrow> int gomap
     \<Rightarrow> (error + int gomap) option" where
  "countPopularity E images layers [] popularity = Some (Inr popularity)"
| "countPopularity E images layers (k # ks) popularity =
     (case map_of images k of
        None \<Rightarrow> countPopularity E images layers ks popularity
      | Some img \<Rightarrow>
          (case allLayersOf E images layers img of
             None \<Rightarrow> None
           | Some (Inl err) \<Rightarrow> Some (Inl err)
           | Some (Inr allLayers) \<Rightarrow>
               countPopularity E images layers ks (bump allLayers popularity)))"

text \<open>
  Lines 52 to 65: the dependency graph over the layers that appear in at least one image,
  keeping of each layer's dependencies those that are in use.
\<close>

definition buildGraph ::
  "('m, 'x) env_scheme \<Rightarrow> int gomap \<Rightarrow> Layer gomap \<Rightarrow> (string list) gomap" where
  "buildGraph E popularity layers =
     fold (\<lambda>name graph.
             case map_of layers name of
               None \<Rightarrow> graph
             | Some layer \<Rightarrow>
                 AList.update name
                   (filter (\<lambda>dep. map_of popularity dep \<noteq> None) (Depends layer)) graph)
          (rangeKeys E popularity) []"

definition GlobalLayerOrder ::
  "('m, 'x) env_scheme \<Rightarrow> ('m ResolvedImage) gomap \<Rightarrow> Layer gomap \<Rightarrow> (error + string list) option" where
  "GlobalLayerOrder E images layers =
     (case countPopularity E images layers (rangeKeys E images) [] of
        None \<Rightarrow> None
      | Some (Inl err) \<Rightarrow> Some (Inl err)
      | Some (Inr popularity) \<Rightarrow>
          topoSortByPopularity E (buildGraph E popularity layers) popularity)"

subsection \<open>The layers an image installs\<close>

text \<open>
  The transitive closure of an image in the words of the spec: its own resolved layers,
  and the layers inherited through its base chain. As in the source, an image whose
  layers do not resolve adds nothing.
\<close>

definition resolvedLayers :: "('m, 'x) env_scheme \<Rightarrow> Layer gomap \<Rightarrow> 'm ResolvedImage \<Rightarrow> string list" where
  "resolvedLayers E layers img =
     (case ResolveLayerOrder E (Layers img) layers {} of Inl err \<Rightarrow> [] | Inr resolved \<Rightarrow> resolved)"

inductive installs ::
  "('m, 'x) env_scheme \<Rightarrow> ('m ResolvedImage) gomap \<Rightarrow> Layer gomap \<Rightarrow> string \<Rightarrow> string \<Rightarrow> bool"
  for E images layers where
  own: "map_of images k = Some img \<Longrightarrow> l \<in> set (resolvedLayers E layers img)
          \<Longrightarrow> installs E images layers k l"
| inherited: "map_of images k = Some img \<Longrightarrow> \<not> IsExternalBase img
          \<Longrightarrow> installs E images layers (Base img) l \<Longrightarrow> installs E images layers k l"

lemma set_appendUnseen [simp]: "set (appendUnseen ls r) = set r \<union> set ls"
  unfolding appendUnseen_def by (induction ls arbitrary: r) auto

lemma distinct_appendUnseen [simp]: "distinct r \<Longrightarrow> distinct (appendUnseen ls r)"
  unfolding appendUnseen_def by (induction ls arbitrary: r) auto

lemma installs_None: "map_of images k = None \<Longrightarrow> \<not> installs E images layers k l"
  by (auto elim: installs.cases)

lemma installs_Some:
  "map_of images k = Some img \<Longrightarrow>
   installs E images layers k l \<longleftrightarrow>
     l \<in> set (resolvedLayers E layers img) \<or>
     (\<not> IsExternalBase img \<and> installs E images layers (Base img) l)"
  by (auto elim: installs.cases intro: installs.intros)

lemma walk_result:
  "walk E images layers name acc = Some y \<Longrightarrow>
   set y = set acc \<union> {l. installs E images layers name l} \<and> (distinct acc \<longrightarrow> distinct y)"
proof (induction rule: walk.raw_induct[rotated 1, consumes 1, case_names step])
  case (step walk' E images layers name acc y)
  note 1 = step.IH step.hyps
  show ?case
  proof (cases "map_of images name")
    case None
    then show ?thesis using 1(2) installs_None[OF None] by auto
  next
    case (Some img)
    let ?inner = "if \<not> IsExternalBase img then walk' E images layers (Base img) acc else Some acc"
    from 1(2) Some have "Option.bind ?inner (\<lambda>result'.
               case ResolveLayerOrder E (Layers img) layers {} of
                 Inl err \<Rightarrow> Some result'
               | Inr resolved \<Rightarrow> Some (appendUnseen resolved result')) = Some y" by simp
    then obtain r1 where r1: "?inner = Some r1"
      and y': "(case ResolveLayerOrder E (Layers img) layers {} of
                 Inl err \<Rightarrow> Some r1
               | Inr resolved \<Rightarrow> Some (appendUnseen resolved r1)) = Some y"
      unfolding bind_eq_Some_conv by blast
    have y: "y = (case ResolveLayerOrder E (Layers img) layers {} of
                     Inl err \<Rightarrow> r1 | Inr resolved \<Rightarrow> appendUnseen resolved r1)"
      using y' by (cases "ResolveLayerOrder E (Layers img) layers {}") auto
    have r1set: "set r1 = set acc \<union> {l. \<not> IsExternalBase img \<and> installs E images layers (Base img) l}
                  \<and> (distinct acc \<longrightarrow> distinct r1)"
    proof (cases "IsExternalBase img")
      case True
      then show ?thesis using r1 by auto
    next
      case False
      then have "walk' E images layers (Base img) acc = Some r1" using r1 by simp
      from 1(1)[OF this] show ?thesis using False by simp
    qed
    have yset: "set y = set r1 \<union> set (resolvedLayers E layers img) \<and> (distinct r1 \<longrightarrow> distinct y)"
      using y by (auto simp: resolvedLayers_def split: sum.splits)
    show ?thesis using r1set yset installs_Some[OF Some, of E layers] by auto
  qed
qed

lemma collectAllImageLayers_result:
  "collectAllImageLayers E name images layers = Some y \<Longrightarrow>
   set y = {l. installs E images layers name l} \<and> distinct y"
  using walk_result[of E images layers name "[]" y] by (simp add: collectAllImageLayers_def)

subsection \<open>Popularity\<close>

text \<open>
  Image \<open>k\<close> needs layer \<open>l\<close>: \<open>l\<close> is in the list that the loop of \<^verbatim>\<open>GlobalLayerOrder\<close>
  computes for the image. \<open>pop\<close> is the number of images that need a layer, and a layer
  is used when some image needs it.
\<close>

definition needs ::
  "('m, 'x) env_scheme \<Rightarrow> ('m ResolvedImage) gomap \<Rightarrow> Layer gomap \<Rightarrow> string \<Rightarrow> string \<Rightarrow> bool" where
  "needs E images layers k l \<longleftrightarrow>
     (\<exists>img ls. map_of images k = Some img \<and> allLayersOf E images layers img = Some (Inr ls)
        \<and> l \<in> set ls)"

definition pop :: "('m, 'x) env_scheme \<Rightarrow> ('m ResolvedImage) gomap \<Rightarrow> Layer gomap \<Rightarrow> string \<Rightarrow> int" where
  "pop E images layers l = int (card {k \<in> keysOf images. needs E images layers k l})"

lemma allLayersOf_result:
  "allLayersOf E images layers img = Some (Inr ls) \<Longrightarrow>
   distinct ls \<and>
   set ls = {l. installs E images layers (Name img) l} \<union> set (resolvedLayers E layers img)"
  unfolding allLayersOf_def
  by (auto simp: resolvedLayers_def split: sum.splits option.splits
           dest!: collectAllImageLayers_result)

lemma needs_installs:
  "map_of images k = Some img \<Longrightarrow> Name img = k \<Longrightarrow> needs E images layers k l \<Longrightarrow>
   installs E images layers k l"
  unfolding needs_def
  by (auto dest!: allLayersOf_result intro: installs.own)

lemma count_list_distinct: "distinct ls \<Longrightarrow> count_list ls l = (if l \<in> set ls then 1 else 0)"
  by (induction ls) auto

lemma intAt_bump: "intAt (bump ls p) l = intAt p l + int (count_list ls l)"
  unfolding bump_def by (induction ls arbitrary: p) auto

lemma keysOf_update [simp]: "keysOf (AList.update k v m) = insert k (keysOf m)"
  by (simp add: keysOf_def dom_update)

lemma keysOf_bump [simp]: "keysOf (bump ls p) = keysOf p \<union> set ls"
  unfolding bump_def by (induction ls arbitrary: p) auto

lemma distinct_bump: "distinct (map fst p) \<Longrightarrow> distinct (map fst (bump ls p))"
  unfolding bump_def by (induction ls arbitrary: p) (auto simp: distinct_update)

lemma keysOf_map_of: "k \<in> keysOf m \<longleftrightarrow> map_of m k \<noteq> None"
  by (simp add: keysOf_def map_of_eq_None_iff)

lemma countPopularity_result:
  "countPopularity E images layers ks p0 = Some (Inr p) \<Longrightarrow>
   (\<forall>l. intAt p l = intAt p0 l + int (length (filter (\<lambda>k. needs E images layers k l) ks))) \<and>
   keysOf p = keysOf p0 \<union> {l. \<exists>k \<in> set ks. needs E images layers k l} \<and>
   (distinct (map fst p0) \<longrightarrow> distinct (map fst p))"
proof (induction ks arbitrary: p0)
  case Nil
  then show ?case by simp
next
  case (Cons k ks)
  show ?case
  proof (cases "map_of images k")
    case None
    then have nk: "\<And>l. \<not> needs E images layers k l" by (simp add: needs_def)
    from Cons.prems None have "countPopularity E images layers ks p0 = Some (Inr p)" by simp
    from Cons.IH[OF this] show ?thesis using nk by simp
  next
    case (Some img)
    with Cons.prems obtain ls where ls: "allLayersOf E images layers img = Some (Inr ls)"
      and rest: "countPopularity E images layers ks (bump ls p0) = Some (Inr p)"
      by (auto split: option.splits sum.splits)
    have nk: "\<And>l. needs E images layers k l \<longleftrightarrow> l \<in> set ls"
      using Some ls by (simp add: needs_def)
    have d: "distinct ls" using allLayersOf_result[OF ls] by simp
    have cnt: "\<And>l. int (count_list ls l) = (if l \<in> set ls then 1 else 0)"
      using d by (simp add: count_list_distinct)
    from Cons.IH[OF rest] show ?thesis
      using nk cnt by (auto simp: intAt_bump distinct_bump)
  qed
qed

lemma countPopularity_returns:
  "\<forall>k img. map_of images k = Some img \<longrightarrow> (\<exists>ls. allLayersOf E images layers img = Some (Inr ls))
   \<Longrightarrow> \<exists>p. countPopularity E images layers ks p0 = Some (Inr p)"
proof (induction ks arbitrary: p0)
  case Nil
  then show ?case by simp
next
  case (Cons k ks)
  show ?case
  proof (cases "map_of images k")
    case None
    then show ?thesis using Cons by simp
  next
    case (Some img)
    then obtain ls where "allLayersOf E images layers img = Some (Inr ls)" using Cons.prems by blast
    then show ?thesis using Some Cons.IH[OF Cons.prems] by simp
  qed
qed

lemma countPopularity_all_resolved:
  "countPopularity E images layers ks p0 = Some (Inr p) \<Longrightarrow> k \<in> set ks \<Longrightarrow>
   map_of images k = Some img \<Longrightarrow> \<exists>ls. allLayersOf E images layers img = Some (Inr ls)"
  by (induction ks arbitrary: p0) (auto split: option.splits sum.splits)

lemma popularity_is_pop:
  assumes "permuting (rangeOrder E)" "distinct (map fst images)"
    and "countPopularity E images layers (rangeKeys E images) [] = Some (Inr p)"
  shows "intAt p l = pop E images layers l"
    and "keysOf p = {l. 0 < pop E images layers l}"
    and "distinct (map fst p)"
proof -
  let ?ks = "rangeKeys E images"
  have ks: "distinct ?ks" "set ?ks = keysOf images"
    using assms(1,2) by (simp_all add: rangeKeys_def keysOf_def)
  note res = countPopularity_result[OF assms(3)]
  have "length (filter (\<lambda>k. needs E images layers k l) ?ks)
          = card ({k. needs E images layers k l} \<inter> set ?ks)" for l
    using ks(1) by (rule distinct_length_filter)
  then have len: "int (length (filter (\<lambda>k. needs E images layers k l) ?ks)) = pop E images layers l" for l
    using ks(2) by (simp add: pop_def Collect_conj_eq Int_commute)
  show "intAt p l = pop E images layers l" using res len by simp
  have "0 < pop E images layers l \<longleftrightarrow> (\<exists>k \<in> keysOf images. needs E images layers k l)" for l
  proof -
    have "finite {k \<in> keysOf images. needs E images layers k l}" by simp
    then have "0 < card {k \<in> keysOf images. needs E images layers k l}
                 \<longleftrightarrow> {k \<in> keysOf images. needs E images layers k l} \<noteq> {}"
      by (simp add: card_gt_0_iff)
    then show ?thesis by (auto simp: pop_def)
  qed
  then show "keysOf p = {l. 0 < pop E images layers l}"
    using res ks(2) by (auto simp: keysOf_def)
  show "distinct (map fst p)" using res by simp
qed

subsection \<open>The dependency graph\<close>

lemma fold_graph_keys:
  "keysOf (fold (\<lambda>name g. case map_of layers name of None \<Rightarrow> g
                            | Some layer \<Rightarrow> AList.update name (f layer) g) ks g0)
     = keysOf g0 \<union> {n \<in> set ks. map_of layers n \<noteq> None}"
  by (induction ks arbitrary: g0) (auto split: option.splits)

lemma fold_graph_listAt:
  "listAt (fold (\<lambda>name g. case map_of layers name of None \<Rightarrow> g
                            | Some layer \<Rightarrow> AList.update name (f layer) g) ks g0) n
     = (if n \<in> set ks then (case map_of layers n of None \<Rightarrow> listAt g0 n | Some L \<Rightarrow> f L)
        else listAt g0 n)"
  by (induction ks arbitrary: g0) (auto split: option.splits)

lemma fold_graph_distinct:
  "distinct (map fst g0) \<Longrightarrow>
   distinct (map fst (fold (\<lambda>name g. case map_of layers name of None \<Rightarrow> g
                            | Some layer \<Rightarrow> AList.update name (f layer) g) ks g0))"
  by (induction ks arbitrary: g0) (auto split: option.splits simp: distinct_update)

lemma keysOf_Nil [simp]: "keysOf [] = {}"
  by (simp add: keysOf_def)

lemma buildGraph_props:
  assumes "permuting (rangeOrder E)"
  shows "keysOf (buildGraph E p layers) = {n \<in> keysOf p. map_of layers n \<noteq> None}"
    and "n \<in> keysOf p \<Longrightarrow> map_of layers n = Some L \<Longrightarrow>
         listAt (buildGraph E p layers) n = filter (\<lambda>d. d \<in> keysOf p) (Depends L)"
    and "distinct (map fst (buildGraph E p layers))"
proof -
  have ks: "set (rangeKeys E p) = keysOf p"
    using assms by (simp add: rangeKeys_def keysOf_def)
  show "keysOf (buildGraph E p layers) = {n \<in> keysOf p. map_of layers n \<noteq> None}"
    unfolding buildGraph_def fold_graph_keys ks by simp
  show "listAt (buildGraph E p layers) n = filter (\<lambda>d. d \<in> keysOf p) (Depends L)"
    if "n \<in> keysOf p" "map_of layers n = Some L"
    unfolding buildGraph_def fold_graph_listAt ks using that by (simp add: keysOf_map_of)
  show "distinct (map fst (buildGraph E p layers))"
    unfolding buildGraph_def by (rule fold_graph_distinct) simp
qed

text \<open>The edges of a graph: \<open>(u, v)\<close> when node \<open>v\<close> lists \<open>u\<close> among its dependencies.\<close>

definition edges :: "(string list) gomap \<Rightarrow> (string \<times> string) set" where
  "edges graph = {(u, v). v \<in> keysOf graph \<and> u \<in> set (listAt graph v)}"

lemma all_emitted_acyclic:
  assumes tr: "kahnTrace graph p r" and all: "set r = keysOf graph"
  shows "(x, x) \<notin> (edges graph)\<^sup>+"
proof
  assume cyc: "(x, x) \<in> (edges graph)\<^sup>+"
  define S where "S = {(u, v). \<exists>i j. i < j \<and> j < length r \<and> r ! i = u \<and> r ! j = v}"
  have d: "distinct r" using tr by (simp add: kahnTrace_def)
  have sub: "edges graph \<subseteq> S"
    unfolding edges_def S_def using kahnTrace_index[OF tr] all by auto
  have "trans S"
  proof (rule transI)
    fix a b c assume "(a, b) \<in> S" "(b, c) \<in> S"
    then obtain i j j' k where ij: "i < j" "j < length r" "r ! i = a" "r ! j = b"
      and jk: "j' < k" "k < length r" "r ! j' = b" "r ! k = c"
      unfolding S_def by blast
    have "j' < length r" using jk by simp
    moreover have "r ! j = r ! j'" using ij jk by simp
    ultimately have "j = j'" using d ij(2) nth_eq_iff_index_eq by blast
    then have "i < k" using ij(1) jk(1) by simp
    then show "(a, c) \<in> S" unfolding S_def using ij(3) jk(2,4) by blast
  qed
  then have "S\<^sup>+ = S" by (rule trancl_id)
  then have "(x, x) \<in> S" using trancl_mono[OF cyc sub] by simp
  then obtain i j where ij: "i < j" "j < length r" "r ! i = r ! j" unfolding S_def by auto
  then have "i < length r" by simp
  then have "i = j" using d ij(2,3) nth_eq_iff_index_eq by blast
  then show False using ij(1) by simp
qed

lemma stuck_cyclic:
  assumes st: "stuck graph r" and sub: "set r \<subseteq> keysOf graph" and ne: "set r \<noteq> keysOf graph"
    and closed: "\<forall>v \<in> keysOf graph. set (listAt graph v) \<subseteq> keysOf graph"
  shows "\<exists>x. (x, x) \<in> (edges graph)\<^sup>+"
proof (rule ccontr)
  assume no: "\<not> (\<exists>x. (x, x) \<in> (edges graph)\<^sup>+)"
  define U where "U = keysOf graph - set r"
  define R where "R = {(d, n). n \<in> U \<and> d \<in> U \<and> d \<in> set (listAt graph n)}"
  have "R \<subseteq> edges graph" unfolding R_def edges_def U_def by auto
  then have "R\<^sup>+ \<subseteq> (edges graph)\<^sup>+" by (rule trancl_mono_subset)
  then have "acyclic R" using no unfolding acyclic_def by blast
  moreover have "finite R"
  proof (rule finite_subset)
    show "R \<subseteq> U \<times> U" unfolding R_def by auto
    show "finite (U \<times> U)" unfolding U_def by simp
  qed
  ultimately have "wf R" by (simp add: finite_acyclic_wf)
  moreover have "U \<noteq> {}" using sub ne unfolding U_def by auto
  ultimately obtain z where z: "z \<in> U" "\<And>y. (y, z) \<in> R \<Longrightarrow> y \<notin> U"
    using wfE_min[of R _ U] by (metis all_not_in_conv)
  from z(1) obtain d where "d \<in> set (listAt graph z)" "d \<notin> set r"
    using st unfolding stuck_def U_def by auto
  moreover then have "d \<in> U" using closed z(1) unfolding U_def by auto
  ultimately have "(d, z) \<in> R" using z(1) unfolding R_def by simp
  then show False using z(2) \<open>d \<in> U\<close> by blast
qed


subsection \<open>What \<^verbatim>\<open>GlobalLayerOrder\<close> returns\<close>

text \<open>
  The contract of \<^verbatim>\<open>ResolveLayerOrder\<close> that some theorems need: it "fails if a name is
  unknown", so the layers it returns are keys of the layer map.
\<close>

definition knownOnly :: "('m, 'x) env_scheme \<Rightarrow> Layer gomap \<Rightarrow> bool" where
  "knownOnly E layers \<longleftrightarrow>
     (\<forall>sel ls. ResolveLayerOrder E sel layers {} = Inr ls \<longrightarrow> set ls \<subseteq> keysOf layers)"

text \<open>
  The dependency graph restricted to the layers in use: an edge \<open>(u, v)\<close> when layer \<open>v\<close>
  lists \<open>u\<close> in its \<^verbatim>\<open>Depends\<close> and both are needed by some image.
\<close>

definition dependsOn ::
  "('m, 'x) env_scheme \<Rightarrow> ('m ResolvedImage) gomap \<Rightarrow> Layer gomap \<Rightarrow> (string \<times> string) set" where
  "dependsOn E images layers =
     {(u, v). 0 < pop E images layers u \<and> 0 < pop E images layers v \<and>
              (\<exists>L. map_of layers v = Some L \<and> u \<in> set (Depends L))}"

text \<open>
  A candidate of a step, given the layers emitted before it: a layer in use and known,
  not yet emitted, all of whose dependencies in use are emitted (zero in-degree).
\<close>

definition candidate ::
  "('m, 'x) env_scheme \<Rightarrow> ('m ResolvedImage) gomap \<Rightarrow> Layer gomap \<Rightarrow> string list \<Rightarrow> string \<Rightarrow> bool" where
  "candidate E images layers emitted m \<longleftrightarrow>
     0 < pop E images layers m \<and> m \<notin> set emitted \<and>
     (\<exists>L. map_of layers m = Some L \<and>
        (\<forall>d \<in> set (Depends L). 0 < pop E images layers d \<longrightarrow> d \<in> set emitted))"

lemma graph_of_images:
  assumes "permuting (rangeOrder E)" "distinct (map fst images)"
    and "countPopularity E images layers (rangeKeys E images) [] = Some (Inr p)"
  shows "keysOf (buildGraph E p layers) = {n. 0 < pop E images layers n \<and> map_of layers n \<noteq> None}"
    and "0 < pop E images layers n \<Longrightarrow> map_of layers n = Some L \<Longrightarrow>
         listAt (buildGraph E p layers) n = filter (\<lambda>d. 0 < pop E images layers d) (Depends L)"
    and "edges (buildGraph E p layers) = dependsOn E images layers"
proof -
  note pp = popularity_is_pop[OF assms]
  note bg = buildGraph_props[OF assms(1), where p = p and layers = layers]
  show k: "keysOf (buildGraph E p layers) = {n. 0 < pop E images layers n \<and> map_of layers n \<noteq> None}"
    using bg(1) pp(2) by auto
  show l: "listAt (buildGraph E p layers) n = filter (\<lambda>d. 0 < pop E images layers d) (Depends L)"
    if "0 < pop E images layers n" "map_of layers n = Some L" for n L
    using bg(2)[of n L] that pp(2) by simp
  show "edges (buildGraph E p layers) = dependsOn E images layers"
    unfolding edges_def dependsOn_def k using l by auto
qed

lemma GlobalLayerOrder_Inr:
  assumes "GlobalLayerOrder E images layers = Some (Inr order)"
  obtains p where "countPopularity E images layers (rangeKeys E images) [] = Some (Inr p)"
    and "kahnEmitted E (buildGraph E p layers) p = Some order"
    and "length order = length (buildGraph E p layers)"
  using assms unfolding GlobalLayerOrder_def topoSortByPopularity_def
  by (auto split: option.splits sum.splits if_splits)

lemma GlobalLayerOrder_trace:
  assumes "permuting (rangeOrder E)" "distinct (map fst images)"
    and "GlobalLayerOrder E images layers = Some (Inr order)"
  obtains p where "countPopularity E images layers (rangeKeys E images) [] = Some (Inr p)"
    and "kahnTrace (buildGraph E p layers) p order"
    and "set order = keysOf (buildGraph E p layers)"
proof -
  from GlobalLayerOrder_Inr[OF assms(3)] obtain p where
    p: "countPopularity E images layers (rangeKeys E images) [] = Some (Inr p)"
    and em: "kahnEmitted E (buildGraph E p layers) p = Some order"
    and len: "length order = length (buildGraph E p layers)" by blast
  note bg = buildGraph_props[OF assms(1), where p = p and layers = layers]
  from kahnEmitted_returns[OF assms(1) bg(3), of p] em
  have tr: "kahnTrace (buildGraph E p layers) p order" by auto
  have "set order = keysOf (buildGraph E p layers)"
    using kahnTrace_length(2)[OF bg(3) tr] len by simp
  then show ?thesis using that p tr by blast
qed

section \<open>The functions of the repository that are not among the sources\<close>

text \<open>
  Modelled from the spec: \<^verbatim>\<open>ResolveLayerOrder\<close>, which is not among the available sources.
  "Returns a topological order containing \<open>selection\<close> and all transitive dependencies,
  minus any layer in \<open>excluded_parent_layers\<close>. Fails if a name is unknown or a cycle is
  detected. Tie-breaking in layer-order is by lexicographic ascending." \<open>reach\<close> collects
  the transitive dependencies (a chain of distinct known layers is no longer than the layer
  map), \<open>lexTopo\<close> emits, round by round, the least name all of whose dependencies are
  emitted.
\<close>

definition layerDeps :: "Layer gomap \<Rightarrow> string \<Rightarrow> string list" where
  "layerDeps layers n = (case map_of layers n of None \<Rightarrow> [] | Some L \<Rightarrow> Depends L)"

fun reach :: "nat \<Rightarrow> Layer gomap \<Rightarrow> string list \<Rightarrow> string list" where
  "reach 0 layers xs = xs"
| "reach (Suc k) layers xs = reach k layers (remdups (xs @ concat (map (layerDeps layers) xs)))"

fun lexTopo :: "nat \<Rightarrow> Layer gomap \<Rightarrow> string list \<Rightarrow> string list \<Rightarrow> error + string list" where
  "lexTopo 0 layers remaining out = (if remaining = [] then Inr out else Inl LayerCycle)"
| "lexTopo (Suc k) layers remaining out =
     (case filter (\<lambda>n. list_all (\<lambda>d. d \<in> set out) (layerDeps layers n)) (sort remaining) of
        [] \<Rightarrow> (if remaining = [] then Inr out else Inl LayerCycle)
      | n # ns \<Rightarrow> lexTopo k layers (removeAll n remaining) (out @ [n]))"

definition specResolveLayerOrder :: "string list \<Rightarrow> Layer gomap \<Rightarrow> string set \<Rightarrow> error + string list" where
  "specResolveLayerOrder selection layers excluded =
     (let closure = reach (length layers) layers (remdups selection) in
      case filter (\<lambda>n. map_of layers n = None) closure of
        n # ns \<Rightarrow> Inl (UnknownLayer n)
      | [] \<Rightarrow>
          (case lexTopo (length closure) layers closure [] of
             Inl err \<Rightarrow> Inl err
           | Inr order \<Rightarrow> Inr (filter (\<lambda>n. n \<notin> excluded) order)))"

text \<open>
  Modelled from the spec: \<^verbatim>\<open>LayersProvidedByImage\<close>, which is not among the available
  sources. "Transitive closure of everything an image installs (its own layers + its
  base's provided set)." The walk up the base chain is bounded by the number of images
  and fails with \<open>ImageCycle\<close> beyond it, with \<open>UnknownImage\<close> on a name that is not an
  image.
\<close>

fun providedWalk ::
  "nat \<Rightarrow> ('m ResolvedImage) gomap \<Rightarrow> Layer gomap \<Rightarrow> string \<Rightarrow> error + string set" where
  "providedWalk 0 images layers name = Inl ImageCycle"
| "providedWalk (Suc fuel) images layers name =
     (case map_of images name of
        None \<Rightarrow> Inl (UnknownImage name)
      | Some img \<Rightarrow>
          (case specResolveLayerOrder (Layers img) layers {} of
             Inl err \<Rightarrow> Inl err
           | Inr own \<Rightarrow>
               if IsExternalBase img then Inr (set own)
               else (case providedWalk fuel images layers (Base img) of
                       Inl err \<Rightarrow> Inl err
                     | Inr inherited \<Rightarrow> Inr (set own \<union> inherited))))"

definition specLayersProvidedByImage ::
  "string \<Rightarrow> ('m ResolvedImage) gomap \<Rightarrow> Layer gomap \<Rightarrow> error + string set" where
  "specLayersProvidedByImage name images layers = providedWalk (length images) images layers name"

text \<open>The environment of a run with these two functions and a given order of \<^verbatim>\<open>range\<close>.\<close>

definition specEnv :: "(string list \<Rightarrow> string list) \<Rightarrow> 'm env" where
  "specEnv order =
     \<lparr>ResolveLayerOrder = specResolveLayerOrder,
      LayersProvidedByImage = specLayersProvidedByImage,
      rangeOrder = order\<rparr>"

text \<open>
  An image as the tests of the repository write it: name, base, whether the base is
  external, own layers; tag \<^verbatim>\<open>v1\<close>, registry \<^verbatim>\<open>r\<close>, packaging family \<^verbatim>\<open>rpm\<close>, and the zero
  value in every other field.
\<close>

definition testImage :: "string \<Rightarrow> string \<Rightarrow> bool \<Rightarrow> string list \<Rightarrow> unit ResolvedImage" where
  "testImage name base ext ls =
     \<lparr>Name = name, Base = base, IsExternalBase = ext, Layers = ls, Tag = ''v1'', Registry = ''r'',
      Pkg = ''rpm'', Platforms = [], User = [], UID = 0, GID = 0, Merge = (), Auto = False,
      Home = [], FullTag = ''r/'' @ name @ '':v1'', Bootc = False\<rparr>"

text \<open>The layers and images of the spec's scenario 1 (popularity tie-breaking).\<close>

definition tieLayers :: "Layer gomap" where
  "tieLayers =
     [(''pixi'', \<lparr>LayerName = ''pixi'', Depends = []\<rparr>),
      (''nodejs'', \<lparr>LayerName = ''nodejs'', Depends = []\<rparr>),
      (''python'', \<lparr>LayerName = ''python'', Depends = [''pixi'']\<rparr>),
      (''testapi'', \<lparr>LayerName = ''testapi'', Depends = [''python'']\<rparr>)]"

definition tieImages :: "(unit ResolvedImage) gomap" where
  "tieImages =
     [(''a'', testImage ''a'' ''ext:1'' True [''pixi'', ''python'', ''testapi'']),
      (''b'', testImage ''b'' ''ext:1'' True [''pixi'', ''nodejs''])]"

subsection \<open>The spec-modelled resolver keeps the contract\<close>

lemma lexTopo_subset:
  "lexTopo k layers remaining out = Inr order \<Longrightarrow> set order \<subseteq> set remaining \<union> set out"
proof (induction k arbitrary: remaining out)
  case 0
  then show ?case by (auto split: if_splits)
next
  case (Suc k)
  show ?case
  proof (cases "filter (\<lambda>n. list_all (\<lambda>d. d \<in> set out) (layerDeps layers n)) (sort remaining)")
    case Nil
    then show ?thesis using Suc.prems by (auto split: if_splits)
  next
    case (Cons n ns)
    then have "n \<in> set (filter (\<lambda>n. list_all (\<lambda>d. d \<in> set out) (layerDeps layers n)) (sort remaining))"
      by simp
    then have n: "n \<in> set remaining" by simp
    from Suc.prems Cons have "lexTopo k layers (removeAll n remaining) (out @ [n]) = Inr order"
      by simp
    from Suc.IH[OF this] show ?thesis using n by auto
  qed
qed

lemma specResolveLayerOrder_known:
  "specResolveLayerOrder selection layers excluded = Inr ls \<Longrightarrow> set ls \<subseteq> keysOf layers"
proof -
  assume a: "specResolveLayerOrder selection layers excluded = Inr ls"
  let ?c = "reach (length layers) layers (remdups selection)"
  from a have unk: "filter (\<lambda>n. map_of layers n = None) ?c = []"
    by (auto simp: specResolveLayerOrder_def Let_def split: list.splits)
  with a obtain order where o: "lexTopo (length ?c) layers ?c [] = Inr order"
    and ls: "ls = filter (\<lambda>n. n \<notin> excluded) order"
    by (auto simp: specResolveLayerOrder_def Let_def split: sum.splits)
  have "set ?c \<subseteq> keysOf layers"
    using unk by (auto simp: filter_empty_conv keysOf_map_of)
  then show ?thesis using lexTopo_subset[OF o] ls by auto
qed

lemma knownOnly_specEnv: "knownOnly (specEnv order) layers"
  by (auto simp: knownOnly_def specEnv_def dest: specResolveLayerOrder_known)

lemma permuting_rev: "permuting rev"
  by (simp add: permuting_def)

lemma permuting_id: "permuting (\<lambda>ks. ks)"
  by (simp add: permuting_def)

lemma rangeOrder_specEnv [simp]: "rangeOrder (specEnv order) = order"
  by (simp add: specEnv_def)

lemmas model_simps =
  specResolveLayerOrder_def layerDeps_def specLayersProvidedByImage_def
  GlobalLayerOrder_def allLayersOf_def collectAllImageLayers_def
  walk.simps appendUnseen_def bump_def buildGraph_def rangeKeys_def
  topoSortByPopularity_def kahnEmitted_def initDegrees_def addReverse_def listAt_def
  initQueue_def intAt_def kahnLoop.simps relax_def sortByPopularity_def sortOuter.simps
  sortInner.simps Let_def

section \<open>Theorems on the global layer order\<close>

lemma nth_notin_take: "distinct xs \<Longrightarrow> k < length xs \<Longrightarrow> xs ! k \<notin> set (take k xs)"
  by (metis distinct_take id_take_nth_drop not_distinct_conv_prefix distinct.simps(2) distinct_append)

text \<open>
  C3: at every step \<open>k\<close> of the run that \<^verbatim>\<open>GlobalLayerOrder\<close> returns, the layer emitted is a
  zero-in-degree candidate, and every candidate \<open>m\<close> of that step is less popular than it,
  or equally popular with a name that is not smaller. \<open>pop\<close> is the number of images
  that need the layer (\<open>popularity_is_pop\<close>: it is what the code counts).
\<close>

theorem GlobalLayerOrder_popularity_priority:
  assumes "permuting (rangeOrder E)" "distinct (map fst images)"
    and "GlobalLayerOrder E images layers = Some (Inr order)"
    and "k < length order"
  shows "candidate E images layers (take k order) (order ! k) \<and>
         (\<forall>m. candidate E images layers (take k order) m \<longrightarrow>
            pop E images layers m < pop E images layers (order ! k) \<or>
            (pop E images layers m = pop E images layers (order ! k) \<and> order ! k \<le> m))"
proof -
  from GlobalLayerOrder_trace[OF assms(1-3)] obtain p where
    p: "countPopularity E images layers (rangeKeys E images) [] = Some (Inr p)"
    and tr: "kahnTrace (buildGraph E p layers) p order"
    and all: "set order = keysOf (buildGraph E p layers)" by blast
  let ?g = "buildGraph E p layers"
  note gi = graph_of_images[OF assms(1,2) p]
  note pp = popularity_is_pop[OF assms(1,2) p]
  have d: "distinct order" using tr by (simp add: kahnTrace_def)
  have cand_iff: "candidate E images layers (take k order) m \<longleftrightarrow>
      m \<in> keysOf ?g \<and> m \<notin> set (take k order) \<and> set (listAt ?g m) \<subseteq> set (take k order)" for m
  proof (cases "0 < pop E images layers m \<and> map_of layers m \<noteq> None")
    case True
    then obtain L where L: "map_of layers m = Some L" by auto
    have "listAt ?g m = filter (\<lambda>d. 0 < pop E images layers d) (Depends L)"
      using gi(2)[of m L] True L by simp
    then show ?thesis using True L unfolding candidate_def gi(1) by auto
  next
    case False
    then show ?thesis unfolding candidate_def gi(1) by auto
  qed
  have k_in: "order ! k \<in> keysOf ?g" using all assms(4) nth_mem by blast
  have "candidate E images layers (take k order) (order ! k)"
    unfolding cand_iff using k_in nth_notin_take[OF d assms(4)] tr assms(4)
    by (simp add: kahnTrace_def)
  moreover have "pop E images layers m < pop E images layers (order ! k) \<or>
            (pop E images layers m = pop E images layers (order ! k) \<and> order ! k \<le> m)"
    if "candidate E images layers (take k order) m" for m
  proof -
    from that have "m \<in> keysOf ?g" "m \<notin> set (take k order)"
      "set (listAt ?g m) \<subseteq> set (take k order)" unfolding cand_iff by simp_all
    then have "before p (order ! k) m" using tr assms(4) unfolding kahnTrace_def by blast
    then show ?thesis unfolding before_def pp(1) by auto
  qed
  ultimately show ?thesis by blast
qed

lemma tie_popularity:
  "countPopularity (specEnv rev) tieImages tieLayers (rangeKeys (specEnv rev) tieImages) []
     = Some (Inr [(''nodejs'', 1), (''pixi'', 2), (''python'', 1), (''testapi'', 1)])"
  by (simp add: model_simps tieImages_def tieLayers_def testImage_def specEnv_def)

lemma tie_order:
  "GlobalLayerOrder (specEnv rev) tieImages tieLayers
     = Some (Inr [''pixi'', ''nodejs'', ''python'', ''testapi''])"
  by (simp add: model_simps tieImages_def tieLayers_def testImage_def specEnv_def)

lemma tie_distinct: "distinct (map fst tieImages)"
  by (simp add: tieImages_def)

lemma tie_pop:
  "pop (specEnv rev) tieImages tieLayers l
     = intAt [(''nodejs'', 1), (''pixi'', 2), (''python'', 1), (''testapi'', 1)] l"
  using popularity_is_pop(1)[OF _ tie_distinct tie_popularity] by (simp add: permuting_rev)

theorem GlobalLayerOrder_popularity_priority_witness:
  "GlobalLayerOrder (specEnv rev) tieImages tieLayers
     = Some (Inr [''pixi'', ''nodejs'', ''python'', ''testapi''])
   \<and> candidate (specEnv rev) tieImages tieLayers [''pixi''] ''nodejs''
   \<and> candidate (specEnv rev) tieImages tieLayers [''pixi''] ''python''
   \<and> pop (specEnv rev) tieImages tieLayers ''python'' = pop (specEnv rev) tieImages tieLayers ''nodejs''
   \<and> ''nodejs'' \<le> ''python''"
proof -
  have "map_of tieLayers ''python'' = Some \<lparr>LayerName = ''python'', Depends = [''pixi'']\<rparr>"
    by (simp add: tieLayers_def)
  then have c: "candidate (specEnv rev) tieImages tieLayers [''pixi''] ''python''"
    by (simp add: candidate_def tie_pop intAt_def)
  have perm: "permuting (rangeOrder (specEnv rev))" by (simp add: permuting_rev)
  show ?thesis
    using GlobalLayerOrder_popularity_priority[OF perm tie_distinct tie_order, of 1] c tie_order
    by (simp add: tie_pop intAt_def)
qed


text \<open>
  C4: in the order that \<^verbatim>\<open>GlobalLayerOrder\<close> returns no layer occurs twice, and for every
  edge \<open>u \<rightarrow> v\<close> (layer \<open>v\<close> lists \<open>u\<close> in its \<^verbatim>\<open>Depends\<close>, both needed by some image) \<open>u\<close>
  stands at a smaller index than \<open>v\<close>.
\<close>

theorem GlobalLayerOrder_topological:
  assumes "permuting (rangeOrder E)" "distinct (map fst images)"
    and "GlobalLayerOrder E images layers = Some (Inr order)"
    and "map_of layers v = Some L" "u \<in> set (Depends L)"
    and "0 < pop E images layers u" "0 < pop E images layers v"
  shows "distinct order \<and> (\<exists>i j. i < j \<and> j < length order \<and> order ! i = u \<and> order ! j = v)"
proof -
  from GlobalLayerOrder_trace[OF assms(1-3)] obtain p where
    p: "countPopularity E images layers (rangeKeys E images) [] = Some (Inr p)"
    and tr: "kahnTrace (buildGraph E p layers) p order"
    and all: "set order = keysOf (buildGraph E p layers)" by blast
  note gi = graph_of_images[OF assms(1,2) p]
  have "v \<in> set order" unfolding all gi(1) using assms(4,7) by simp
  moreover have "u \<in> set (listAt (buildGraph E p layers) v)"
    using gi(2)[OF assms(7,4)] assms(5,6) by simp
  ultimately have "\<exists>i j. i < j \<and> j < length order \<and> order ! i = u \<and> order ! j = v"
    by (rule kahnTrace_index[OF tr])
  moreover have "distinct order" using tr by (simp add: kahnTrace_def)
  ultimately show ?thesis by simp
qed

theorem GlobalLayerOrder_topological_witness:
  "distinct [''pixi'', ''nodejs'', ''python'', ''testapi''] \<and>
   (\<exists>i j. i < j \<and> j < length [''pixi'', ''nodejs'', ''python'', ''testapi''] \<and>
      [''pixi'', ''nodejs'', ''python'', ''testapi''] ! i = ''pixi'' \<and>
      [''pixi'', ''nodejs'', ''python'', ''testapi''] ! j = ''python'')
   \<and> GlobalLayerOrder (specEnv rev) tieImages tieLayers
        = Some (Inr [''pixi'', ''nodejs'', ''python'', ''testapi''])
   \<and> map_of tieLayers ''python'' = Some \<lparr>LayerName = ''python'', Depends = [''pixi'']\<rparr>
   \<and> 0 < pop (specEnv rev) tieImages tieLayers ''pixi''
   \<and> 0 < pop (specEnv rev) tieImages tieLayers ''python''"
proof -
  have perm: "permuting (rangeOrder (specEnv rev))" by (simp add: permuting_rev)
  have L: "map_of tieLayers ''python'' = Some \<lparr>LayerName = ''python'', Depends = [''pixi'']\<rparr>"
    by (simp add: tieLayers_def)
  have u: "0 < pop (specEnv rev) tieImages tieLayers ''pixi''"
    and v: "0 < pop (specEnv rev) tieImages tieLayers ''python''"
    by (simp_all add: tie_pop intAt_def)
  show ?thesis
    using GlobalLayerOrder_topological[OF perm tie_distinct tie_order L _ u v] L u v tie_order
    by simp
qed

lemma resolvedLayers_known:
  "knownOnly E layers \<Longrightarrow> l \<in> set (resolvedLayers E layers img) \<Longrightarrow> l \<in> keysOf layers"
  unfolding knownOnly_def resolvedLayers_def
  by (cases "ResolveLayerOrder E (Layers img) layers {}") auto

lemma installs_known:
  "installs E images layers k l \<Longrightarrow> knownOnly E layers \<Longrightarrow> l \<in> keysOf layers"
  by (induction rule: installs.induct) (auto intro: resolvedLayers_known)

lemma used_known:
  assumes "knownOnly E layers" "0 < pop E images layers d"
  shows "map_of layers d \<noteq> None"
proof -
  have "{k \<in> keysOf images. needs E images layers k d} \<noteq> {}"
    using assms(2) unfolding pop_def by (metis card.empty of_nat_0 less_irrefl)
  then obtain k img ls where "allLayersOf E images layers img = Some (Inr ls)" "d \<in> set ls"
    unfolding needs_def by blast
  then have "installs E images layers (Name img) d \<or> d \<in> set (resolvedLayers E layers img)"
    using allLayersOf_result by fastforce
  then have "d \<in> keysOf layers"
    using installs_known[OF _ assms(1)] resolvedLayers_known[OF assms(1)] by blast
  then show ?thesis by (simp add: keysOf_map_of)
qed

text \<open>
  C9: when every image's layers resolve (the popularity count succeeds), the loop of
  Kahn's algorithm returns a list \<open>emitted\<close> of at most as many nodes as the restricted
  graph has; \<^verbatim>\<open>GlobalLayerOrder\<close> returns the error, and no order, exactly when fewer nodes
  were emitted, and the emitted list otherwise; and fewer nodes are emitted exactly when
  the dependency graph restricted to the layers in use has a cycle. The last part needs
  the resolver's contract (\<open>knownOnly\<close>): a layer in use that is not in the layer map
  would block its dependents without any cycle.
\<close>

theorem GlobalLayerOrder_cycle_error:
  assumes "permuting (rangeOrder E)" "distinct (map fst images)"
    and "knownOnly E layers"
    and "countPopularity E images layers (rangeKeys E images) [] = Some (Inr popularity)"
  shows "\<exists>emitted.
           kahnEmitted E (buildGraph E popularity layers) popularity = Some emitted \<and>
           length emitted \<le> length (buildGraph E popularity layers) \<and>
           GlobalLayerOrder E images layers =
             Some (if length emitted < length (buildGraph E popularity layers)
                   then Inl CycleDetected else Inr emitted) \<and>
           (length emitted < length (buildGraph E popularity layers)
              \<longleftrightarrow> (\<exists>l. (l, l) \<in> (dependsOn E images layers)\<^sup>+))"
proof -
  let ?g = "buildGraph E popularity layers"
  note bg = buildGraph_props[OF assms(1), where p = popularity and layers = layers]
  note gi = graph_of_images[OF assms(1,2,4)]
  from kahnEmitted_returns[OF assms(1) bg(3), of popularity] obtain emitted where
    em: "kahnEmitted E ?g popularity = Some emitted"
    and tr: "kahnTrace ?g popularity emitted" and st: "stuck ?g emitted" by blast
  note len = kahnTrace_length[OF bg(3) tr]
  have sub: "set emitted \<subseteq> keysOf ?g" using tr by (simp add: kahnTrace_def)
  have glo: "GlobalLayerOrder E images layers =
             Some (if length emitted < length ?g then Inl CycleDetected else Inr emitted)"
    using assms(4) em len(1) by (auto simp: GlobalLayerOrder_def topoSortByPopularity_def)
  have closed: "\<forall>v \<in> keysOf ?g. set (listAt ?g v) \<subseteq> keysOf ?g"
  proof (intro ballI subsetI)
    fix v d assume v: "v \<in> keysOf ?g" and d: "d \<in> set (listAt ?g v)"
    from v obtain L where L: "0 < pop E images layers v" "map_of layers v = Some L"
      unfolding gi(1) by auto
    then have "0 < pop E images layers d" using gi(2)[OF L] d by simp
    then show "d \<in> keysOf ?g" unfolding gi(1) using used_known[OF assms(3)] by simp
  qed
  have "length emitted < length ?g \<longleftrightarrow> (\<exists>l. (l, l) \<in> (edges ?g)\<^sup>+)"
  proof
    assume "length emitted < length ?g"
    then have "set emitted \<noteq> keysOf ?g" using len(2) by auto
    then show "\<exists>l. (l, l) \<in> (edges ?g)\<^sup>+" by (rule stuck_cyclic[OF st sub _ closed])
  next
    assume cyc: "\<exists>l. (l, l) \<in> (edges ?g)\<^sup>+"
    show "length emitted < length ?g"
    proof (rule ccontr)
      assume "\<not> length emitted < length ?g"
      then have "set emitted = keysOf ?g" using len by auto
      then show False using all_emitted_acyclic[OF tr] cyc by blast
    qed
  qed
  then show ?thesis using em len(1) glo gi(3) by auto
qed

lemma tie_emitted:
  "kahnEmitted (specEnv rev)
     (buildGraph (specEnv rev) [(''nodejs'', 1), (''pixi'', 2), (''python'', 1), (''testapi'', 1)] tieLayers)
     [(''nodejs'', 1), (''pixi'', 2), (''python'', 1), (''testapi'', 1)]
   = Some [''pixi'', ''nodejs'', ''python'', ''testapi'']"
  by (simp add: model_simps tieLayers_def specEnv_def)

lemma tie_graph_length:
  "length (buildGraph (specEnv rev) [(''nodejs'', 1), (''pixi'', 2), (''python'', 1), (''testapi'', 1)] tieLayers) = 4"
  by (simp add: model_simps tieLayers_def specEnv_def)

theorem GlobalLayerOrder_cycle_error_witness:
  "GlobalLayerOrder (specEnv rev) tieImages tieLayers
     = Some (Inr [''pixi'', ''nodejs'', ''python'', ''testapi''])
   \<and> \<not> (\<exists>l. (l, l) \<in> (dependsOn (specEnv rev) tieImages tieLayers)\<^sup>+)"
proof -
  have perm: "permuting (rangeOrder (specEnv rev))" by (simp add: permuting_rev)
  show ?thesis
    using GlobalLayerOrder_cycle_error[OF perm tie_distinct knownOnly_specEnv tie_popularity]
    by (simp add: tie_emitted tie_graph_length)
qed

text \<open>
  With a resolver that lets a cycle through, the loop leaves the nodes of the cycle
  unemitted and the length check of line 109 turns the run into the error.
\<close>

lemma topoSortByPopularity_cycle_example:
  "topoSortByPopularity (specEnv rev) [(''a'', [''b'']), (''b'', [''a'']), (''c'', [])]
     [(''a'', 1), (''b'', 1), (''c'', 1)] = Some (Inl CycleDetected)"
  by (simp add: model_simps specEnv_def)

section \<open>Intermediate synthesis (C5)\<close>

subsection \<open>The prefix trie\<close>

text \<open>
  \<^verbatim>\<open>trieNode\<close>: the layer at this position, the children by layer name, the images that
  end here. The selectors carry the prefix \<open>node\<close>. The source builds the trie in place
  through pointers; \<open>insertSeq\<close> is lines 230 to 239 for one image, returning the node
  with the path of the sequence added below it.
\<close>

datatype trieNode =
  TrieNode (nodeLayer: string) (nodeChildren: "(string \<times> trieNode) list") (nodeImages: "string list")

definition newTrieNode :: "string \<Rightarrow> trieNode" where
  "newTrieNode layer = TrieNode layer [] []"

fun insertSeq :: "string list \<Rightarrow> string \<Rightarrow> trieNode \<Rightarrow> trieNode" where
  "insertSeq [] imgName (TrieNode l cs imgs) = TrieNode l cs (imgs @ [imgName])"
| "insertSeq (layer # seq) imgName (TrieNode l cs imgs) =
     (let child = (case map_of cs layer of None \<Rightarrow> newTrieNode layer | Some c \<Rightarrow> c)
      in TrieNode l (AList.update layer (insertSeq seq imgName child) cs) imgs)"

definition sortedKeys :: "(string \<times> trieNode) list \<Rightarrow> string list" where
  "sortedKeys m = sortStrings (map fst m)"

text \<open>
  Lines 280 to 285: follow the chain while the node has exactly one child and no image
  ends at it.
\<close>

fun followChain :: "trieNode \<Rightarrow> string list \<Rightarrow> string list \<times> trieNode" where
  "followChain (TrieNode l [(layerName, next)] []) pathLayers =
     followChain next (pathLayers @ [layerName])"
| "followChain current pathLayers = (pathLayers, current)"

lemma size_child:
  "map_of cs k = Some c \<Longrightarrow> size c < size (TrieNode l cs imgs)"
  by (induction cs) (auto split: if_splits)

lemma size_followChain:
  "followChain node path = (path', current) \<Longrightarrow> size current \<le> size node"
  by (induction node path rule: followChain.induct) auto

subsection \<open>The layers of an auto-intermediate\<close>

text \<open>
  \<^verbatim>\<open>addTransitiveDeps\<close>: the set \<^verbatim>\<open>needed\<close> is a Go map written by the recursive calls, so
  it is passed in and returned. \<open>addDepsOf\<close> is the loop over \<^verbatim>\<open>layer.Depends\<close>. The
  recursion ends because every call on a dependency adds a new name of the layer map's
  dependency lists to \<^verbatim>\<open>needed\<close> (\<open>depsRank\<close>).
\<close>

function addTransitiveDeps :: "string \<Rightarrow> Layer gomap \<Rightarrow> string set \<Rightarrow> string set \<Rightarrow> string set"
  and addDepsOf :: "string list \<Rightarrow> Layer gomap \<Rightarrow> string set \<Rightarrow> string set \<Rightarrow> string set" where
  "addTransitiveDeps layerName layers needed excluded =
     (case map_of layers layerName of
        None \<Rightarrow> needed
      | Some layer \<Rightarrow> addDepsOf (Depends layer) layers needed excluded)"
| "addDepsOf [] layers needed excluded = needed"
| "addDepsOf (dep # deps) layers needed excluded =
     (if dep \<in> excluded \<or> dep \<in> needed then addDepsOf deps layers needed excluded
      else addDepsOf deps layers (addTransitiveDeps dep layers (insert dep needed) excluded) excluded)"
  by pat_completeness auto

definition allDeps :: "Layer gomap \<Rightarrow> string set" where
  "allDeps layers = (\<Union>e \<in> set layers. set (Depends (snd e)))"

lemma finite_allDeps [simp]: "finite (allDeps layers)"
  by (simp add: allDeps_def)

lemma Depends_allDeps: "map_of layers n = Some L \<Longrightarrow> set (Depends L) \<subseteq> allDeps layers"
  by (auto simp: allDeps_def dest!: map_of_SomeD intro!: bexI[of _ "(n, L)"])

lemma addDeps_grows:
  "addTransitiveDeps_addDepsOf_dom (Inl (n, layers, needed, excluded)) \<Longrightarrow>
     needed \<subseteq> addTransitiveDeps n layers needed excluded"
  "addTransitiveDeps_addDepsOf_dom (Inr (ds, layers, needed, excluded)) \<Longrightarrow>
     needed \<subseteq> addDepsOf ds layers needed excluded"
proof (induction n layers needed excluded and ds layers needed excluded
       rule: addTransitiveDeps_addDepsOf.pinduct)
  case (1 layerName layers needed excluded)
  then show ?case by (auto simp: addTransitiveDeps.psimps split: option.splits)
next
  case (2 layers needed excluded)
  then show ?case by (simp add: addDepsOf.psimps)
next
  case (3 dep deps layers needed excluded)
  then show ?case by (auto simp: addDepsOf.psimps)
qed

definition depsRank ::
  "(string \<times> Layer gomap \<times> string set \<times> string set) + (string list \<times> Layer gomap \<times> string set \<times> string set)
   \<Rightarrow> nat \<times> nat \<times> nat" where
  "depsRank x =
     (case x of
        Inl (n, layers, needed, excluded) \<Rightarrow> (card (allDeps layers - needed), 1, 0)
      | Inr (ds, layers, needed, excluded) \<Rightarrow>
          (card (allDeps layers - needed), if set ds \<subseteq> allDeps layers then 0 else 2, length ds))"

termination addTransitiveDeps
proof (relation "inv_image (less_than <*lex*> less_than <*lex*> less_than) depsRank")
  show "wf (inv_image (less_than <*lex*> less_than <*lex*> less_than) depsRank)"
    by (intro wf_inv_image wf_lex_prod wf_less_than)
next
  fix layerName :: string and layers :: "Layer gomap" and needed excluded :: "string set"
    and layer :: Layer
  assume "map_of layers layerName = Some layer"
  then show "(Inr (Depends layer, layers, needed, excluded), Inl (layerName, layers, needed, excluded))
        \<in> inv_image (less_than <*lex*> less_than <*lex*> less_than) depsRank"
    using Depends_allDeps by (simp add: depsRank_def)
next
  fix dep :: string and deps :: "string list" and layers :: "Layer gomap"
    and needed excluded :: "string set"
  show "(Inr (deps, layers, needed, excluded), Inr (dep # deps, layers, needed, excluded))
        \<in> inv_image (less_than <*lex*> less_than <*lex*> less_than) depsRank"
    by (auto simp: depsRank_def)
next
  fix dep :: string and deps :: "string list" and layers :: "Layer gomap" and needed excluded :: "string set"
  assume a: "\<not> (dep \<in> excluded \<or> dep \<in> needed)"
  show "(Inl (dep, layers, insert dep needed, excluded), Inr (dep # deps, layers, needed, excluded))
        \<in> inv_image (less_than <*lex*> less_than <*lex*> less_than) depsRank"
  proof (cases "dep \<in> allDeps layers")
    case True
    then have "allDeps layers - insert dep needed \<subset> allDeps layers - needed" using a by auto
    then have "card (allDeps layers - insert dep needed) < card (allDeps layers - needed)"
      by (intro psubset_card_mono) simp_all
    then show ?thesis by (simp add: depsRank_def)
  next
    case False
    then have "allDeps layers - insert dep needed = allDeps layers - needed" by auto
    then show ?thesis using False by (simp add: depsRank_def)
  qed
next
  fix dep :: string and deps :: "string list" and layers :: "Layer gomap" and needed excluded :: "string set"
  assume a: "\<not> (dep \<in> excluded \<or> dep \<in> needed)"
    and dom: "addTransitiveDeps_addDepsOf_dom (Inl (dep, layers, insert dep needed, excluded))"
  let ?N = "addTransitiveDeps dep layers (insert dep needed) excluded"
  have "needed \<subseteq> ?N" using addDeps_grows(1)[OF dom] by auto
  then have "allDeps layers - ?N \<subseteq> allDeps layers - needed" by auto
  then have "card (allDeps layers - ?N) \<le> card (allDeps layers - needed)"
    by (intro card_mono) simp_all
  then show "(Inr (deps, layers, ?N, excluded), Inr (dep # deps, layers, needed, excluded))
        \<in> inv_image (less_than <*lex*> less_than <*lex*> less_than) depsRank"
    by (auto simp: depsRank_def)
qed

text \<open>
  \<^verbatim>\<open>computeOwnLayers\<close>: the layers of the path that the parent does not provide, with their
  transitive dependencies, in global order; the path's own layers when that is empty.
  A failing \<^verbatim>\<open>LayersProvidedByImage\<close> leaves \<^verbatim>\<open>parentProvided\<close> empty.
\<close>

definition computeOwnLayers ::
  "('m, 'x) env_scheme \<Rightarrow> string \<Rightarrow> string list \<Rightarrow> ('m ResolvedImage) gomap \<Rightarrow> Layer gomap
     \<Rightarrow> string list \<Rightarrow> string list" where
  "computeOwnLayers E parentName pathLayers result layers globalOrder =
     (let parentProvided =
            (case map_of result parentName of
               None \<Rightarrow> {}
             | Some parentImg \<Rightarrow>
                 (case LayersProvidedByImage E parentName result layers of
                    Inl err \<Rightarrow> {}
                  | Inr provided \<Rightarrow> provided));
          own = filter (\<lambda>l. l \<notin> parentProvided) pathLayers;
          needed = fold (\<lambda>l needed. addTransitiveDeps l layers (insert l needed) parentProvided) own {};
          ordered = filter (\<lambda>l. l \<in> needed \<and> l \<notin> parentProvided) globalOrder
      in if ordered = [] then own else ordered)"

subsection \<open>Creating an intermediate, rewriting a base\<close>

text \<open>
  Modelled from the spec: \<^verbatim>\<open>resolveIntPtr\<close>, which is not among the available sources
  ("UID/GID to 1000 unless overridden"): the first value that is set, else the default.
\<close>

definition resolveIntPtr :: "int option \<Rightarrow> int option \<Rightarrow> int \<Rightarrow> int" where
  "resolveIntPtr a b d = (case a of Some v \<Rightarrow> v | None \<Rightarrow> (case b of Some v \<Rightarrow> v | None \<Rightarrow> d))"

definition resolvePlatforms :: "'m Config \<Rightarrow> string list" where
  "resolvePlatforms cfg =
     (if length (cfgPlatforms (Defaults cfg)) > 0 then cfgPlatforms (Defaults cfg)
      else [''linux/amd64'', ''linux/arm64''])"

definition createIntermediate ::
  "('m, 'x) env_scheme \<Rightarrow> string \<Rightarrow> string \<Rightarrow> string list \<Rightarrow> ('m ResolvedImage) gomap
     \<Rightarrow> ('m ResolvedImage) gomap \<Rightarrow> 'm Config \<Rightarrow> string \<Rightarrow> Layer gomap \<Rightarrow> string list
     \<Rightarrow> ('m ResolvedImage) gomap" where
  "createIntermediate E name parentName pathLayers result origImages cfg tag layers globalOrder =
     (let ownLayers = computeOwnLayers E parentName pathLayers result layers globalOrder;
          isExternalBase = (map_of result parentName = None);
          pkg = (if cfgPkg (Defaults cfg) = [] then ''rpm'' else cfgPkg (Defaults cfg));
          user = (if cfgUser (Defaults cfg) = [] then ''user'' else cfgUser (Defaults cfg));
          registry = cfgRegistry (Defaults cfg);
          img = \<lparr>Name = name, Base = parentName, IsExternalBase = isExternalBase,
                 Layers = ownLayers, Tag = tag, Registry = registry, Pkg = pkg,
                 Platforms = resolvePlatforms cfg, User = user,
                 UID = resolveIntPtr (cfgUID (Defaults cfg)) None 1000,
                 GID = resolveIntPtr (cfgGID (Defaults cfg)) None 1000,
                 Merge = cfgMerge (Defaults cfg), Auto = True,
                 Home = ''/home/'' @ user,
                 FullTag = (if registry \<noteq> [] then registry @ ''/'' @ name @ '':'' @ tag
                            else name @ '':'' @ tag),
                 Bootc = False\<rparr>
      in AList.update name img result)"

text \<open>
  \<^verbatim>\<open>updateImageBase\<close> writes through the pointer stored in the map: the entry of
  \<^verbatim>\<open>imgName\<close> gets the new base and the flag, which is read from the map as it is then.
\<close>

definition updateImageBase ::
  "string \<Rightarrow> string \<Rightarrow> ('m ResolvedImage) gomap \<Rightarrow> ('m ResolvedImage) gomap" where
  "updateImageBase imgName parentName result =
     (case map_of result imgName of
        None \<Rightarrow> result
      | Some img \<Rightarrow>
          AList.update imgName
            (img\<lparr>Base := parentName, IsExternalBase := (map_of result parentName = None)\<rparr>) result)"

text \<open>\<^verbatim>\<open>assignLayersForIntermediate\<close> has an empty body: "The image keeps its original Layers
  from images.yml; ResolveLayerOrder with parentLayers will handle exclusion".\<close>

definition assignLayersForIntermediate ::
  "string \<Rightarrow> string \<Rightarrow> string list \<Rightarrow> ('m ResolvedImage) gomap \<Rightarrow> ('m ResolvedImage) gomap
     \<Rightarrow> Layer gomap \<Rightarrow> string list \<Rightarrow> ('m ResolvedImage) gomap" where
  "assignLayersForIntermediate imgName parentName pathLayers result origImages layers globalOrder
     = result"

definition isExistingImageReusable ::
  "string \<Rightarrow> string list \<Rightarrow> ('m ResolvedImage) gomap \<Rightarrow> Layer gomap \<Rightarrow> string
     \<Rightarrow> ('m ResolvedImage) gomap \<Rightarrow> string list \<Rightarrow> bool" where
  "isExistingImageReusable imgName pathLayers origImages layers parentName result globalOrder
     \<longleftrightarrow> map_of origImages imgName \<noteq> None"

subsection \<open>Naming an intermediate\<close>

text \<open>\<^verbatim>\<open>%d\<close> of \<^verbatim>\<open>fmt.Sprintf\<close> for a number that is not negative.\<close>

function decimal :: "nat \<Rightarrow> string" where
  "decimal n =
     (if n < 10 then [''0123456789'' ! n]
      else decimal (n div 10) @ [''0123456789'' ! (n mod 10)])"
  by pat_completeness auto
termination
  by (relation "measure (\<lambda>n. n)") auto

declare decimal.simps [simp del]

text \<open>
  The loop \<^verbatim>\<open>for { ... }\<close> of \<^verbatim>\<open>pickIntermediateName\<close>, which leaves only through
  \<^verbatim>\<open>return name\<close>: a partial function. The counter \<^verbatim>\<open>suffix\<close> (here \<open>suffix'\<close>) starts at 2.
\<close>

partial_function (option) pickLoop ::
  "string \<Rightarrow> string \<Rightarrow> nat \<Rightarrow> ('m ResolvedImage) gomap \<Rightarrow> ('m ResolvedImage) gomap \<Rightarrow> string option" where
  "pickLoop baseName name suffix' result origImages =
     (if map_of origImages name \<noteq> None
      then pickLoop baseName (baseName @ ''-'' @ decimal suffix') (suffix' + 1) result origImages
      else if map_of result name \<noteq> None
      then pickLoop baseName (baseName @ ''-'' @ decimal suffix') (suffix' + 1) result origImages
      else Some name)"

declare pickLoop.simps [code]

definition pickIntermediateName ::
  "trieNode \<Rightarrow> string list \<Rightarrow> ('m ResolvedImage) gomap \<Rightarrow> ('m ResolvedImage) gomap \<Rightarrow> string option" where
  "pickIntermediateName node pathLayers result origImages =
     (if length (nodeImages node) = 1 then Some (nodeImages node ! 0)
      else pickLoop (last pathLayers) (last pathLayers) 2 result origImages)"

subsection \<open>\<^verbatim>\<open>walkTrie\<close>\<close>

text \<open>
  Lines 293 to 315, the branch point: the name of the intermediate and the map after the
  four cases on the images that end at the node.
\<close>

definition branchStep ::
  "('m, 'x) env_scheme \<Rightarrow> trieNode \<Rightarrow> string \<Rightarrow> string list \<Rightarrow> string \<Rightarrow> ('m ResolvedImage) gomap
     \<Rightarrow> ('m ResolvedImage) gomap \<Rightarrow> Layer gomap \<Rightarrow> 'm Config \<Rightarrow> string \<Rightarrow> string list
     \<Rightarrow> string \<times> ('m ResolvedImage) gomap" where
  "branchStep E current intermediateName pathLayers parentName result origImages layers cfg tag
     globalOrder =
     (if length (nodeImages current) = 1 \<and>
         \<not> isExistingImageReusable (nodeImages current ! 0) pathLayers origImages layers
              parentName result globalOrder
      then (intermediateName,
            updateImageBase (nodeImages current ! 0) intermediateName
              (createIntermediate E intermediateName parentName pathLayers result origImages cfg
                 tag layers globalOrder))
      else if length (nodeImages current) = 1
      then (nodeImages current ! 0,
            assignLayersForIntermediate (nodeImages current ! 0) parentName pathLayers
              (updateImageBase (nodeImages current ! 0) parentName result)
              origImages layers globalOrder)
      else if length (nodeImages current) > 1
      then (intermediateName,
            fold (\<lambda>imgName result. updateImageBase imgName intermediateName result)
              (nodeImages current)
              (createIntermediate E intermediateName parentName pathLayers result origImages cfg
                 tag layers globalOrder))
      else (intermediateName,
            createIntermediate E intermediateName parentName pathLayers result origImages cfg
              tag layers globalOrder))"

text \<open>
  \<^verbatim>\<open>walkTrie\<close> and its loop over the sorted child keys (\<open>walkChildren\<close>, given the keys still
  to visit). The map \<^verbatim>\<open>result\<close> is written in place by the source and threaded here. The
  error that the source returns is always \<^verbatim>\<open>nil\<close>; \<open>None\<close> is a run in which
  \<^verbatim>\<open>pickIntermediateName\<close> does not return. A sorted key always has its child.
\<close>

function walkTrie ::
  "('m, 'x) env_scheme \<Rightarrow> trieNode \<Rightarrow> string \<Rightarrow> ('m ResolvedImage) gomap \<Rightarrow> ('m ResolvedImage) gomap
     \<Rightarrow> Layer gomap \<Rightarrow> 'm Config \<Rightarrow> string \<Rightarrow> string list \<Rightarrow> ('m ResolvedImage) gomap option"
  and walkChildren ::
  "('m, 'x) env_scheme \<Rightarrow> trieNode \<Rightarrow> string list \<Rightarrow> string \<Rightarrow> ('m ResolvedImage) gomap
     \<Rightarrow> ('m ResolvedImage) gomap \<Rightarrow> Layer gomap \<Rightarrow> 'm Config \<Rightarrow> string \<Rightarrow> string list
     \<Rightarrow> ('m ResolvedImage) gomap option" where
  "walkTrie E node parentName result origImages layers cfg tag globalOrder =
     walkChildren E node (sortedKeys (nodeChildren node)) parentName result origImages layers cfg
       tag globalOrder"
| "walkChildren E node [] parentName result origImages layers cfg tag globalOrder = Some result"
| "walkChildren E node (childLayerName # keys) parentName result origImages layers cfg tag
     globalOrder =
     (case map_of (nodeChildren node) childLayerName of
        None \<Rightarrow> walkChildren E node keys parentName result origImages layers cfg tag globalOrder
      | Some child \<Rightarrow>
          (case followChain child [childLayerName] of
             (pathLayers, current) \<Rightarrow>
               if length (nodeChildren current) \<ge> 2 \<or>
                  (length (nodeChildren current) \<ge> 1 \<and> length (nodeImages current) > 0)
               then
                 (case pickIntermediateName current pathLayers result origImages of
                    None \<Rightarrow> None
                  | Some picked \<Rightarrow>
                      (case branchStep E current picked pathLayers parentName result origImages
                              layers cfg tag globalOrder of
                         (intermediateName, result') \<Rightarrow>
                           (case walkTrie E current intermediateName result' origImages layers
                                   cfg tag globalOrder of
                              None \<Rightarrow> None
                            | Some result'' \<Rightarrow>
                                walkChildren E node keys parentName result'' origImages layers
                                  cfg tag globalOrder)))
               else if length (nodeChildren current) = 0
               then walkChildren E node keys parentName
                      (fold (\<lambda>imgName result. updateImageBase imgName parentName result)
                         (nodeImages current) result)
                      origImages layers cfg tag globalOrder
               else walkChildren E node keys parentName result origImages layers cfg tag
                      globalOrder))"
  by pat_completeness auto

lemma size_walk:
  "map_of (nodeChildren node) k = Some child \<Longrightarrow> (path', current) = followChain child path
   \<Longrightarrow> size current < size node"
  using size_child[of "nodeChildren node" k child "nodeLayer node" "nodeImages node"]
    size_followChain[of child path path' current]
  by simp

definition walkRank ::
  "('e \<times> trieNode \<times> 'r) + ('e \<times> trieNode \<times> string list \<times> 'r) \<Rightarrow> nat \<times> nat" where
  "walkRank x =
     (case x of
        Inl (E, node, r) \<Rightarrow> (size node, Suc (length (nodeChildren node)))
      | Inr (E, node, keys, r) \<Rightarrow> (size node, length keys))"

lemma length_sortedKeys [simp]: "length (sortedKeys m) = length m"
  by (simp add: sortedKeys_def sortStrings_def)

termination walkTrie
proof (relation "inv_image (less_than <*lex*> less_than) walkRank", goal_cases)
  case 1
  show ?case by (intro wf_inv_image wf_lex_prod wf_less_than)
next
  case 2
  show ?case by (simp add: walkRank_def)
next
  case 3
  show ?case by (simp add: walkRank_def)
next
  case 4
  then show ?case by (auto simp: walkRank_def dest: size_walk)
next
  case 5
  show ?case by (simp add: walkRank_def)
next
  case 6
  show ?case by (simp add: walkRank_def)
next
  case 7
  show ?case by (simp add: walkRank_def)
qed

declare walkTrie.simps [simp del] walkChildren.simps [simp del]

subsection \<open>\<^verbatim>\<open>ComputeIntermediates\<close>\<close>

text \<open>
  \<^verbatim>\<open>resolveExternalBase\<close> is a loop \<^verbatim>\<open>for { ... }\<close> up the base chain, with nothing to stop it
  on a cycle: a partial function.
\<close>

partial_function (option) resolveExternalBase ::
  "string \<Rightarrow> ('m ResolvedImage) gomap \<Rightarrow> string option" where
  "resolveExternalBase current images =
     (case map_of images current of
        None \<Rightarrow> Some current
      | Some img \<Rightarrow>
          if IsExternalBase img then Some (Base img) else resolveExternalBase (Base img) images)"

declare resolveExternalBase.simps [code]

text \<open>Lines 197 to 204: the images grouped by their ultimate external base, given the keys
  still to visit.\<close>

fun groupImages ::
  "('m ResolvedImage) gomap \<Rightarrow> string list \<Rightarrow> (string list) gomap \<Rightarrow> (string list) gomap option" where
  "groupImages images [] baseGroups = Some baseGroups"
| "groupImages images (name # names) baseGroups =
     (case resolveExternalBase name images of
        None \<Rightarrow> None
      | Some extBase \<Rightarrow>
          groupImages images names
            (AList.update extBase (listAt baseGroups extBase @ [name]) baseGroups))"

text \<open>
  Lines 211 to 216: the copy of the image map. It holds a copy of every struct under the
  same key, so that the writes below do not reach the input; it is never ranged over. As a
  Go map it is the input map.
\<close>

definition copyImages :: "('m ResolvedImage) gomap \<Rightarrow> ('m ResolvedImage) gomap" where
  "copyImages images = images"

text \<open>Lines 226 to 240: the trie of the absolute sequences of a group.\<close>

fun buildTrie ::
  "('m, 'x) env_scheme \<Rightarrow> ('m ResolvedImage) gomap \<Rightarrow> Layer gomap \<Rightarrow> string list \<Rightarrow> string list
     \<Rightarrow> trieNode \<Rightarrow> trieNode option" where
  "buildTrie E images layers globalOrder [] root = Some root"
| "buildTrie E images layers globalOrder (imgName # imageNames) root =
     (case AbsoluteLayerSequence E imgName images layers globalOrder of
        None \<Rightarrow> None
      | Some seq \<Rightarrow> buildTrie E images layers globalOrder imageNames (insertSeq seq imgName root))"

text \<open>Lines 243 to 249: the first image of the group with no own layers, or the empty
  string.\<close>

definition rootImage :: "('m ResolvedImage) gomap \<Rightarrow> string list \<Rightarrow> string" where
  "rootImage images imageNames =
     (case find (\<lambda>imgName. case map_of images imgName of
                              None \<Rightarrow> False
                            | Some img \<Rightarrow> length (Layers img) = 0) imageNames of
        None \<Rightarrow> []
      | Some imgName \<Rightarrow> imgName)"

text \<open>
  Lines 219 to 262: the loop over the base groups, given the group keys still to visit, in
  the order of the \<^verbatim>\<open>range\<close> over \<^verbatim>\<open>baseGroups\<close>.
\<close>

fun processGroups ::
  "('m, 'x) env_scheme \<Rightarrow> ('m ResolvedImage) gomap \<Rightarrow> Layer gomap \<Rightarrow> 'm Config \<Rightarrow> string
     \<Rightarrow> string list \<Rightarrow> (string list) gomap \<Rightarrow> string list \<Rightarrow> ('m ResolvedImage) gomap
     \<Rightarrow> ('m ResolvedImage) gomap option" where
  "processGroups E images layers cfg tag globalOrder baseGroups [] result = Some result"
| "processGroups E images layers cfg tag globalOrder baseGroups (key # keys) result =
     (let imageNames = sortStrings (listAt baseGroups key) in
      if length imageNames \<le> 1
      then processGroups E images layers cfg tag globalOrder baseGroups keys result
      else
        (case buildTrie E images layers globalOrder imageNames (newTrieNode []) of
           None \<Rightarrow> None
         | Some root \<Rightarrow>
             (case (if rootImage images imageNames = []
                    then resolveExternalBase (imageNames ! 0) images
                    else Some (rootImage images imageNames)) of
                None \<Rightarrow> None
              | Some startParent \<Rightarrow>
                  (case walkTrie E root startParent result images layers cfg tag globalOrder of
                     None \<Rightarrow> None
                   | Some result' \<Rightarrow>
                       processGroups E images layers cfg tag globalOrder baseGroups keys
                         result'))))"

definition ComputeIntermediates ::
  "('m, 'x) env_scheme \<Rightarrow> ('m ResolvedImage) gomap \<Rightarrow> Layer gomap \<Rightarrow> 'm Config \<Rightarrow> string
     \<Rightarrow> (error + ('m ResolvedImage) gomap) option" where
  "ComputeIntermediates E images layers cfg tag =
     (case groupImages images (rangeKeys E images) [] of
        None \<Rightarrow> None
      | Some baseGroups \<Rightarrow>
          (case GlobalLayerOrder E images layers of
             None \<Rightarrow> None
           | Some (Inl err) \<Rightarrow> Some (Inl (ComputingGlobalOrder err))
           | Some (Inr globalOrder) \<Rightarrow>
               (case processGroups E images layers cfg tag globalOrder baseGroups
                       (rangeKeys E baseGroups) (copyImages images) of
                  None \<Rightarrow> None
                | Some result \<Rightarrow> Some (Inr result))))"

section \<open>Theorems on the absolute layer sequence\<close>

text \<open>The layers and images of the repository's test of an internal base.\<close>

definition chainImages :: "(unit ResolvedImage) gomap" where
  "chainImages =
     [(''base'', testImage ''base'' ''ext:1'' True [''pixi'']),
      (''app'', testImage ''app'' ''base'' False [''python'', ''testapi''])]"

lemma pop_pos_iff:
  "0 < pop E images layers l \<longleftrightarrow> (\<exists>k \<in> keysOf images. needs E images layers k l)"
proof -
  have "finite {k \<in> keysOf images. needs E images layers k l}" by simp
  then have "0 < card {k \<in> keysOf images. needs E images layers k l}
               \<longleftrightarrow> {k \<in> keysOf images. needs E images layers k l} \<noteq> {}"
    by (simp add: card_gt_0_iff)
  then show ?thesis by (auto simp: pop_def)
qed

text \<open>
  C5: when \<^verbatim>\<open>GlobalLayerOrder\<close> has returned an order, \<^verbatim>\<open>AbsoluteLayerSequence\<close> returns for
  every image (stored under its own name) a subsequence of that order whose layers are
  exactly the image's transitive closure \<open>installs\<close>: its own resolved layers and the
  layers inherited through the base chain. That every layer of the closure is in the
  order uses the resolver's contract (\<open>knownOnly\<close>).
\<close>

theorem AbsoluteLayerSequence_closure:
  assumes "permuting (rangeOrder E)" "distinct (map fst images)" "knownOnly E layers"
    and "GlobalLayerOrder E images layers = Some (Inr order)"
    and "map_of images k = Some img" "Name img = k"
  shows "\<exists>seq. AbsoluteLayerSequence E k images layers order = Some seq \<and>
               subseq seq order \<and> set seq = {l. installs E images layers k l}"
proof -
  from GlobalLayerOrder_trace[OF assms(1,2,4)] obtain p where
    p: "countPopularity E images layers (rangeKeys E images) [] = Some (Inr p)"
    and tr: "kahnTrace (buildGraph E p layers) p order"
    and all: "set order = keysOf (buildGraph E p layers)" by blast
  note gi = graph_of_images[OF assms(1,2) p]
  have kin: "k \<in> keysOf images" using assms(5) by (simp add: keysOf_map_of)
  then have "k \<in> set (rangeKeys E images)" using assms(1) by (simp add: rangeKeys_def keysOf_def)
  from countPopularity_all_resolved[OF p this assms(5)]
  obtain ls where ls: "allLayersOf E images layers img = Some (Inr ls)" by blast
  then obtain y where y: "collectAllImageLayers E k images layers = Some y"
    using assms(6) by (auto simp: allLayersOf_def split: sum.splits option.splits)
  note cr = collectAllImageLayers_result[OF y]
  have "set y \<subseteq> set order"
  proof
    fix l assume "l \<in> set y"
    then have inst: "installs E images layers k l" using cr by simp
    then have "l \<in> set ls" using allLayersOf_result[OF ls] assms(6) by simp
    then have "needs E images layers k l" using assms(5) ls by (auto simp: needs_def)
    then have "0 < pop E images layers l" using kin pop_pos_iff by blast
    moreover have "map_of layers l \<noteq> None"
      using installs_known[OF inst assms(3)] by (simp add: keysOf_map_of)
    ultimately show "l \<in> set order" unfolding all gi(1) by simp
  qed
  then have "set (filter (\<lambda>l. l \<in> set y) order) = {l. installs E images layers k l}"
    using cr by auto
  then show ?thesis using y by (simp add: AbsoluteLayerSequence_def)
qed

lemma chain_order:
  "GlobalLayerOrder (specEnv rev) chainImages tieLayers = Some (Inr [''pixi'', ''python'', ''testapi''])"
  by (simp add: model_simps chainImages_def tieLayers_def testImage_def specEnv_def)

lemma chain_seq:
  "AbsoluteLayerSequence (specEnv rev) ''app'' chainImages tieLayers [''pixi'', ''python'', ''testapi'']
     = Some [''pixi'', ''python'', ''testapi'']"
  by (simp add: AbsoluteLayerSequence_def model_simps chainImages_def tieLayers_def testImage_def specEnv_def)

theorem AbsoluteLayerSequence_closure_witness:
  "AbsoluteLayerSequence (specEnv rev) ''app'' chainImages tieLayers [''pixi'', ''python'', ''testapi'']
     = Some [''pixi'', ''python'', ''testapi'']
   \<and> subseq [''pixi'', ''python'', ''testapi''] [''pixi'', ''python'', ''testapi'']
   \<and> set [''pixi'', ''python'', ''testapi''] = {l. installs (specEnv rev) chainImages tieLayers ''app'' l}
   \<and> GlobalLayerOrder (specEnv rev) chainImages tieLayers = Some (Inr [''pixi'', ''python'', ''testapi''])"
proof -
  have perm: "permuting (rangeOrder (specEnv rev))" by (simp add: permuting_rev)
  have d: "distinct (map fst chainImages)" by (simp add: chainImages_def)
  have m: "map_of chainImages ''app'' = Some (testImage ''app'' ''base'' False [''python'', ''testapi''])"
    by (simp add: chainImages_def)
  have n: "Name (testImage ''app'' ''base'' False [''python'', ''testapi'']) = ''app''"
    by (simp add: testImage_def)
  show ?thesis
    using AbsoluteLayerSequence_closure[OF perm d knownOnly_specEnv chain_order m n]
    by (simp add: chain_seq chain_order)
qed

section \<open>What does not depend on the order of a \<^verbatim>\<open>range\<close>\<close>

lemma walk_mono_env:
  assumes "walk E1 images layers name acc = Some y"
    and "ResolveLayerOrder E2 = ResolveLayerOrder E1"
  shows "walk E2 images layers name acc = Some y"
  using assms
proof (induction arbitrary: E2 rule: walk.raw_induct[rotated 1, consumes 1, case_names step])
  case (step walk' E images layers name acc y)
  show ?case
  proof (cases "map_of images name")
    case None
    then show ?thesis using step.hyps by (subst walk.simps) simp
  next
    case (Some img)
    let ?inner = "if \<not> IsExternalBase img then walk' E images layers (Base img) acc else Some acc"
    from step.hyps Some obtain r1 where r1: "?inner = Some r1"
      and y: "(case ResolveLayerOrder E (Layers img) layers {} of
                 Inl err \<Rightarrow> Some r1
               | Inr resolved \<Rightarrow> Some (appendUnseen resolved r1)) = Some y"
      by (auto simp: bind_eq_Some_conv)
    have "(if \<not> IsExternalBase img then walk E2 images layers (Base img) acc else Some acc) = Some r1"
    proof (cases "IsExternalBase img")
      case True
      then show ?thesis using r1 by simp
    next
      case False
      then have "walk' E images layers (Base img) acc = Some r1" using r1 by simp
      from step.IH[OF this step.prems] show ?thesis using False by simp
    qed
    then show ?thesis using Some y step.prems by (subst walk.simps) simp
  qed
qed

lemma walk_cong_env:
  assumes "ResolveLayerOrder E2 = ResolveLayerOrder E1"
  shows "walk E2 images layers name acc = walk E1 images layers name acc"
proof (cases "walk E1 images layers name acc")
  case None
  show ?thesis
  proof (cases "walk E2 images layers name acc")
    case None
    then show ?thesis using \<open>walk E1 images layers name acc = None\<close> by simp
  next
    case (Some y)
    from walk_mono_env[OF Some assms[symmetric]] show ?thesis using None by simp
  qed
next
  case (Some y)
  from walk_mono_env[OF Some assms] show ?thesis using Some by simp
qed

lemma allLayersOf_cong_env:
  assumes "ResolveLayerOrder E2 = ResolveLayerOrder E1"
  shows "allLayersOf E2 images layers img = allLayersOf E1 images layers img"
  by (simp add: allLayersOf_def collectAllImageLayers_def walk_cong_env[OF assms] assms
           cong: sum.case_cong)

lemma AbsoluteLayerSequence_cong_env:
  assumes "ResolveLayerOrder E2 = ResolveLayerOrder E1"
  shows "AbsoluteLayerSequence E2 k images layers order
           = AbsoluteLayerSequence E1 k images layers order"
  by (simp add: AbsoluteLayerSequence_def collectAllImageLayers_def walk_cong_env[OF assms])

lemma buildTrie_cong_env:
  assumes "ResolveLayerOrder E2 = ResolveLayerOrder E1"
  shows "buildTrie E2 images layers order names root = buildTrie E1 images layers order names root"
  by (induction names arbitrary: root)
     (simp_all add: AbsoluteLayerSequence_cong_env[OF assms] cong: option.case_cong)

lemma pop_cong_env:
  assumes "ResolveLayerOrder E2 = ResolveLayerOrder E1"
  shows "pop E2 images layers l = pop E1 images layers l"
  by (simp add: pop_def needs_def allLayersOf_cong_env[OF assms])

text \<open>
  The emitted list is determined by the graph and the popularity: each step emits the one
  candidate that ranks before all others, and the loop stops only when no candidate is
  left.
\<close>

lemma kahnTrace_agree:
  assumes t1: "kahnTrace g p r1" and t2: "kahnTrace g p r2"
  shows "i \<le> length r1 \<Longrightarrow> i \<le> length r2 \<Longrightarrow> take i r1 = take i r2"
proof (induction i)
  case 0
  then show ?case by simp
next
  case (Suc i)
  then have eq: "take i r1 = take i r2" and i1: "i < length r1" and i2: "i < length r2" by simp_all
  have d1: "distinct r1" and d2: "distinct r2" using t1 t2 by (simp_all add: kahnTrace_def)
  have c: "r ! i \<in> keysOf g \<and> r ! i \<notin> set (take i r) \<and> set (listAt g (r ! i)) \<subseteq> set (take i r)"
    if "kahnTrace g p r" "i < length r" for r
    using that nth_notin_take[of r i] nth_mem[of i r] unfolding kahnTrace_def by blast
  have "before p (r1 ! i) (r2 ! i)"
    using t1 i1 c[OF t2 i2] eq unfolding kahnTrace_def by simp
  moreover have "before p (r2 ! i) (r1 ! i)"
    using t2 i2 c[OF t1 i1] eq unfolding kahnTrace_def by simp
  ultimately have "r1 ! i = r2 ! i" by (rule before_antisym)
  then show ?case using eq i1 i2 by (simp add: take_Suc_conv_app_nth)
qed

lemma kahn_unique:
  assumes t1: "kahnTrace g p r1" and s1: "stuck g r1"
    and t2: "kahnTrace g p r2" and s2: "stuck g r2"
  shows "r1 = r2"
proof -
  have no_longer: "\<not> length a < length b"
    if ta: "kahnTrace g p a" and sa: "stuck g a" and tb: "kahnTrace g p b" for a b
  proof
    assume lt: "length a < length b"
    have eq: "take (length a) b = a" using kahnTrace_agree[OF ta tb, of "length a"] lt by simp
    let ?n = "b ! length a"
    have db: "distinct b" using tb by (simp add: kahnTrace_def)
    have "?n \<in> keysOf g" using tb lt nth_mem[of "length a" b] unfolding kahnTrace_def by blast
    moreover have "?n \<notin> set a" using nth_notin_take[OF db lt] eq by simp
    moreover have "set (listAt g ?n) \<subseteq> set (take (length a) b)"
      using tb lt unfolding kahnTrace_def by blast
    then have "set (listAt g ?n) \<subseteq> set a" using eq by simp
    ultimately show False using sa unfolding stuck_def by blast
  qed
  have "length r1 = length r2"
    using no_longer[OF t1 s1 t2] no_longer[OF t2 s2 t1] by simp
  then show ?thesis using kahnTrace_agree[OF t1 t2, of "length r1"] by simp
qed

lemma listAt_notin: "n \<notin> keysOf m \<Longrightarrow> listAt m n = []"
  by (simp add: listAt_def keysOf_map_of)

lemma kahnTrace_cong:
  assumes "keysOf g' = keysOf g" "\<And>n. listAt g' n = listAt g n" "\<And>n. intAt p' n = intAt p n"
  shows "kahnTrace g' p' r = kahnTrace g p r" and "stuck g' r = stuck g r"
proof -
  have "before p' = before p" using assms(3) by (intro ext) (simp add: before_def)
  then show "kahnTrace g' p' r = kahnTrace g p r" using assms(1,2) by (simp add: kahnTrace_def)
  show "stuck g' r = stuck g r" using assms(1,2) by (simp add: stuck_def)
qed


lemma GlobalLayerOrder_any_order:
  assumes p1: "permuting (rangeOrder E1)" and p2: "permuting (rangeOrder E2)"
    and res: "ResolveLayerOrder E2 = ResolveLayerOrder E1"
    and d: "distinct (map fst images)"
    and o: "GlobalLayerOrder E1 images layers = Some (Inr order)"
  shows "GlobalLayerOrder E2 images layers = Some (Inr order)"
proof -
  from GlobalLayerOrder_Inr[OF o] obtain q1 where
    q1: "countPopularity E1 images layers (rangeKeys E1 images) [] = Some (Inr q1)"
    and em1: "kahnEmitted E1 (buildGraph E1 q1 layers) q1 = Some order"
    and len1: "length order = length (buildGraph E1 q1 layers)" by blast
  let ?g1 = "buildGraph E1 q1 layers"
  have "\<forall>k img. map_of images k = Some img \<longrightarrow> (\<exists>ls. allLayersOf E2 images layers img = Some (Inr ls))"
  proof (intro allI impI)
    fix k img assume m: "map_of images k = Some img"
    then have "k \<in> set (rangeKeys E1 images)"
      using p1 by (simp add: rangeKeys_def keysOf_map_of[unfolded keysOf_def])
    from countPopularity_all_resolved[OF q1 this m]
    show "\<exists>ls. allLayersOf E2 images layers img = Some (Inr ls)"
      by (simp add: allLayersOf_cong_env[OF res])
  qed
  from countPopularity_returns[OF this] obtain q2 where
    q2: "countPopularity E2 images layers (rangeKeys E2 images) [] = Some (Inr q2)" by blast
  let ?g2 = "buildGraph E2 q2 layers"
  note pp1 = popularity_is_pop[OF p1 d q1] and pp2 = popularity_is_pop[OF p2 d q2]
  note gi1 = graph_of_images[OF p1 d q1] and gi2 = graph_of_images[OF p2 d q2]
  note bg1 = buildGraph_props[OF p1, where p = q1 and layers = layers]
  note bg2 = buildGraph_props[OF p2, where p = q2 and layers = layers]
  have ints: "\<And>n. intAt q2 n = intAt q1 n" using pp1(1) pp2(1) pop_cong_env[OF res] by simp
  have keys: "keysOf ?g2 = keysOf ?g1" unfolding gi1(1) gi2(1) by (simp add: pop_cong_env[OF res])
  have lists: "listAt ?g2 n = listAt ?g1 n" for n
  proof (cases "n \<in> keysOf ?g1")
    case True
    then obtain L where L: "0 < pop E1 images layers n" "map_of layers n = Some L"
      unfolding gi1(1) by auto
    then have "0 < pop E2 images layers n" by (simp add: pop_cong_env[OF res])
    from gi2(2)[OF this L(2)] gi1(2)[OF L] show ?thesis by (simp add: pop_cong_env[OF res])
  next
    case False
    then show ?thesis using keys by (simp add: listAt_notin)
  qed
  from kahnEmitted_returns[OF p1 bg1(3), of q1] em1
  have tr1: "kahnTrace ?g1 q1 order" and st1: "stuck ?g1 order" by auto
  from kahnEmitted_returns[OF p2 bg2(3), of q2] obtain r2 where
    em2: "kahnEmitted E2 ?g2 q2 = Some r2" and tr2: "kahnTrace ?g2 q2 r2" and st2: "stuck ?g2 r2"
    by blast
  have "r2 = order"
    by (rule kahn_unique[OF _ _ tr1 st1])
       (use tr2 st2 kahnTrace_cong[OF keys lists ints] in simp_all)
  moreover have "length ?g2 = length ?g1"
  proof -
    have "card (keysOf ?g2) = length ?g2" "card (keysOf ?g1) = length ?g1"
      using bg1(3) bg2(3) distinct_card[of "map fst ?g1"] distinct_card[of "map fst ?g2"]
      by (simp_all add: keysOf_def)
    then show ?thesis using keys by simp
  qed
  ultimately show ?thesis
    using q2 em2 len1 by (simp add: GlobalLayerOrder_def topoSortByPopularity_def)
qed

subsection \<open>The base groups\<close>

lemma groupImages_result:
  "groupImages images ks bg0 = Some bg \<Longrightarrow>
   (\<forall>key. mset (listAt bg key)
      = mset (listAt bg0 key) + mset (filter (\<lambda>k. resolveExternalBase k images = Some key) ks)) \<and>
   keysOf bg = keysOf bg0 \<union> {key. \<exists>k \<in> set ks. resolveExternalBase k images = Some key} \<and>
   (distinct (map fst bg0) \<longrightarrow> distinct (map fst bg))"
proof (induction ks arbitrary: bg0)
  case Nil
  then show ?case by simp
next
  case (Cons k ks)
  from Cons.prems obtain e where e: "resolveExternalBase k images = Some e"
    and rest: "groupImages images ks (AList.update e (listAt bg0 e @ [k]) bg0) = Some bg"
    by (auto split: option.splits)
  let ?bg1 = "AList.update e (listAt bg0 e @ [k]) bg0"
  note ih = Cons.IH[OF rest]
  have a: "mset (listAt bg key)
      = mset (listAt bg0 key) + mset (filter (\<lambda>k. resolveExternalBase k images = Some key) (k # ks))"
    for key
  proof -
    have "mset (listAt bg key)
      = mset (listAt ?bg1 key) + mset (filter (\<lambda>k. resolveExternalBase k images = Some key) ks)"
      using ih by blast
    then show ?thesis using e by (cases "key = e") simp_all
  qed
  have b: "keysOf bg = keysOf bg0 \<union> {key. \<exists>k' \<in> set (k # ks). resolveExternalBase k' images = Some key}"
  proof -
    have "keysOf bg = keysOf ?bg1 \<union> {key. \<exists>k \<in> set ks. resolveExternalBase k images = Some key}"
      using ih by blast
    then show ?thesis using e by auto
  qed
  have c: "distinct (map fst bg0) \<longrightarrow> distinct (map fst bg)"
    using ih by (simp add: distinct_update)
  show ?case using a b c by blast
qed

lemma distinct_single: "distinct xs \<Longrightarrow> set xs = {e} \<Longrightarrow> xs = [e]"
proof (cases xs)
  case Nil
  assume "set xs = {e}"
  then show ?thesis using Nil by simp
next
  case (Cons a ys)
  assume d: "distinct xs" and s: "set xs = {e}"
  then have "a = e" using Cons by auto
  moreover have "set ys \<subseteq> {e}" using s Cons by auto
  then have "ys = []" using d Cons \<open>a = e\<close> by (cases ys) auto
  ultimately show ?thesis using Cons by simp
qed

lemma groupImages_returns:
  "\<forall>k \<in> set ks. \<exists>e. resolveExternalBase k images = Some e \<Longrightarrow>
   \<exists>bg. groupImages images ks bg0 = Some bg"
proof (induction ks arbitrary: bg0)
  case Nil
  then show ?case by simp
next
  case (Cons k ks)
  then obtain e where "resolveExternalBase k images = Some e" by auto
  then show ?case using Cons by simp
qed

text \<open>A group whose members all have the same external base, whatever the order of the
  \<^verbatim>\<open>range\<close> over the images.\<close>

lemma single_group:
  assumes perm: "permuting (rangeOrder E)"
    and all: "\<forall>k \<in> keysOf images. resolveExternalBase k images = Some e"
    and ne: "images \<noteq> []"
  shows "\<exists>bg. groupImages images (rangeKeys E images) [] = Some bg \<and>
              rangeKeys E bg = [e] \<and> sortStrings (listAt bg e) = sort (map fst images)"
proof -
  let ?ks = "rangeKeys E images"
  have ks: "set ?ks = keysOf images" "mset ?ks = mset (map fst images)"
    using perm by (simp_all add: rangeKeys_def keysOf_def permuting_def)
  then have "\<forall>k \<in> set ?ks. \<exists>e. resolveExternalBase k images = Some e" using all by simp
  from groupImages_returns[OF this] obtain bg where bg: "groupImages images ?ks [] = Some bg"
    by blast
  note r = groupImages_result[OF bg]
  have "keysOf images \<noteq> {}" using ne by (cases images) (auto simp: keysOf_def)
  then have "keysOf bg = {e}" using r all ks(1) by auto
  moreover have "distinct (map fst bg)" using r by simp
  ultimately have "map fst bg = [e]"
    by (intro distinct_single) (simp_all add: keysOf_def)
  moreover have "mset (rangeOrder E [e]) = mset [e]" using perm unfolding permuting_def by blast
  then have "rangeOrder E [e] = [e]" by (simp only: mset_single_iff_right mset.simps) simp
  ultimately have k: "rangeKeys E bg = [e]" by (simp add: rangeKeys_def)
  have "filter (\<lambda>k. resolveExternalBase k images = Some e) ?ks = ?ks"
    using all ks(1) by (simp add: filter_id_conv)
  moreover have "mset (listAt bg e)
      = mset (listAt [] e) + mset (filter (\<lambda>k. resolveExternalBase k images = Some e) ?ks)"
    using r by blast
  ultimately have "mset (listAt bg e) = mset ?ks" by simp
  then have "mset (listAt bg e) = mset (map fst images)" using ks(2) by simp
  then have "sort (listAt bg e) = sort (map fst images)"
    by (intro properties_for_sort) simp_all
  then show ?thesis using bg k by (simp add: sortStrings_def)
qed

section \<open>Theorems on the intermediate synthesis\<close>

subsection \<open>Reading the map after a write\<close>

lemma map_of_updateImageBase:
  "map_of (updateImageBase imgName parentName result) k =
     (if k = imgName
      then map_option (\<lambda>img. img\<lparr>Base := parentName,
                                     IsExternalBase := (map_of result parentName = None)\<rparr>)
             (map_of result imgName)
      else map_of result k)"
  by (cases "map_of result imgName") (auto simp: updateImageBase_def update_conv')

text \<open>The struct that \<^verbatim>\<open>createIntermediate\<close> stores under the new name.\<close>

definition autoImage ::
  "('m, 'x) env_scheme \<Rightarrow> string \<Rightarrow> string \<Rightarrow> string list \<Rightarrow> ('m ResolvedImage) gomap
     \<Rightarrow> 'm Config \<Rightarrow> string \<Rightarrow> Layer gomap \<Rightarrow> string list \<Rightarrow> 'm ResolvedImage" where
  "autoImage E name parentName pathLayers result cfg tag layers globalOrder =
     the (map_of (createIntermediate E name parentName pathLayers result [] cfg tag layers
                    globalOrder) name)"

lemma map_of_createIntermediate:
  "map_of (createIntermediate E name parentName pathLayers result origImages cfg tag layers
             globalOrder) k =
     (if k = name
      then Some (autoImage E name parentName pathLayers result cfg tag layers globalOrder)
      else map_of result k)"
  by (simp add: createIntermediate_def autoImage_def Let_def update_conv')

lemma autoImage_fields [simp]:
  "Auto (autoImage E name parentName pathLayers result cfg tag layers globalOrder)"
  "Base (autoImage E name parentName pathLayers result cfg tag layers globalOrder) = parentName"
  "IsExternalBase (autoImage E name parentName pathLayers result cfg tag layers globalOrder)
     \<longleftrightarrow> map_of result parentName = None"
  "Name (autoImage E name parentName pathLayers result cfg tag layers globalOrder) = name"
  "Layers (autoImage E name parentName pathLayers result cfg tag layers globalOrder)
     = computeOwnLayers E parentName pathLayers result layers globalOrder"
  by (simp_all add: autoImage_def createIntermediate_def Let_def update_conv')

lemmas trie_simps =
  walkTrie.simps walkChildren.simps sortedKeys_def sortStrings_def followChain.simps
  pickIntermediateName_def pickLoop.simps decimal.simps branchStep_def
  isExistingImageReusable_def assignLayersForIntermediate_def
  map_of_updateImageBase map_of_createIntermediate

text \<open>The layers and images of the spec's scenario 2 (shared-prefix intermediate).\<close>

definition prefixLayers :: "Layer gomap" where
  "prefixLayers =
     [(''pixi'', \<lparr>LayerName = ''pixi'', Depends = []\<rparr>),
      (''python'', \<lparr>LayerName = ''python'', Depends = [''pixi'']\<rparr>),
      (''supervisord'', \<lparr>LayerName = ''supervisord'', Depends = [''python'']\<rparr>),
      (''testapi'', \<lparr>LayerName = ''testapi'', Depends = [''supervisord'']\<rparr>),
      (''openclaw'', \<lparr>LayerName = ''openclaw'', Depends = [''supervisord'']\<rparr>)]"

definition prefixImages :: "(unit ResolvedImage) gomap" where
  "prefixImages =
     [(''fedora'', testImage ''fedora'' ''ext:1'' True []),
      (''fedora-test'', testImage ''fedora-test'' ''fedora'' False [''testapi'']),
      (''openclaw'', testImage ''openclaw'' ''fedora'' False [''openclaw''])]"

definition prefixOrder :: "string list" where
  "prefixOrder = [''pixi'', ''python'', ''supervisord'', ''openclaw'', ''testapi'']"

definition prefixTrie :: trieNode where
  "prefixTrie =
     TrieNode []
       [(''pixi'', TrieNode ''pixi''
          [(''python'', TrieNode ''python''
             [(''supervisord'', TrieNode ''supervisord''
                [(''testapi'', TrieNode ''testapi'' [] [''fedora-test'']),
                 (''openclaw'', TrieNode ''openclaw'' [] [''openclaw''])] [])] [])] [])]
       [''fedora'']"

lemma prefix_order:
  "GlobalLayerOrder (specEnv (\<lambda>ks. ks)) prefixImages prefixLayers = Some (Inr prefixOrder)"
  by code_simp

lemma prefix_trie:
  "buildTrie (specEnv (\<lambda>ks. ks)) prefixImages prefixLayers prefixOrder
     [''fedora'', ''fedora-test'', ''openclaw''] (newTrieNode []) = Some prefixTrie"
  by code_simp

lemma prefix_external:
  "\<forall>k \<in> keysOf prefixImages. resolveExternalBase k prefixImages = Some ''ext:1''"
  by (simp add: keysOf_def prefixImages_def testImage_def resolveExternalBase.simps)

lemma prefix_names: "sort (map fst prefixImages) = [''fedora'', ''fedora-test'', ''openclaw'']"
  by code_simp

lemma prefix_root: "rootImage prefixImages [''fedora'', ''fedora-test'', ''openclaw''] = ''fedora''"
  by code_simp

lemma prefix_walk:
  "walkTrie E prefixTrie ''fedora'' prefixImages prefixImages prefixLayers cfg tag prefixOrder
     = Some (updateImageBase ''fedora-test'' ''supervisord''
              (updateImageBase ''openclaw'' ''supervisord''
                (createIntermediate E ''supervisord'' ''fedora'' [''pixi'', ''python'', ''supervisord'']
                   prefixImages prefixImages cfg tag prefixLayers prefixOrder)))"
  by (simp add: trie_simps prefixTrie_def prefixImages_def testImage_def)


text \<open>The configuration of the repository's tests.\<close>

definition testConfig :: "unit Config" where
  "testConfig =
     \<lparr>Defaults = \<lparr>cfgRegistry = ''r'', cfgPkg = ''rpm'', cfgPlatforms = [], cfgUser = [],
                   cfgUID = None, cfgGID = None, cfgMerge = ()\<rparr>\<rparr>"

text \<open>
  C6: on the shared-prefix scenario, whatever the order of Go's map ranges and whatever
  \<^verbatim>\<open>LayersProvidedByImage\<close> returns, \<^verbatim>\<open>ComputeIntermediates\<close> returns a map with an image
  whose \<^verbatim>\<open>Auto\<close> is true (the intermediate \<^verbatim>\<open>supervisord\<close> on \<^verbatim>\<open>fedora\<close>), and in it neither
  \<^verbatim>\<open>fedora-test\<close> nor \<^verbatim>\<open>openclaw\<close> has the base \<^verbatim>\<open>fedora\<close>. The layer chain is linear, so
  the spec leaves \<^verbatim>\<open>ResolveLayerOrder\<close> one possible answer on each image.
\<close>

theorem shared_prefix_intermediate:
  assumes "permuting (rangeOrder E)" "ResolveLayerOrder E = specResolveLayerOrder"
  shows "\<exists>result ft oc.
           ComputeIntermediates E prefixImages prefixLayers cfg tag = Some (Inr result) \<and>
           (\<exists>k img. map_of result k = Some img \<and> Auto img) \<and>
           map_of result ''fedora-test'' = Some ft \<and> Base ft \<noteq> ''fedora'' \<and>
           map_of result ''openclaw'' = Some oc \<and> Base oc \<noteq> ''fedora''"
proof -
  let ?R = "updateImageBase ''fedora-test'' ''supervisord''
              (updateImageBase ''openclaw'' ''supervisord''
                (createIntermediate E ''supervisord'' ''fedora'' [''pixi'', ''python'', ''supervisord'']
                   prefixImages prefixImages cfg tag prefixLayers prefixOrder))"
  have res: "ResolveLayerOrder E = ResolveLayerOrder (specEnv (\<lambda>ks. ks))"
    by (simp add: assms(2) specEnv_def)
  have ne: "prefixImages \<noteq> []" by (simp add: prefixImages_def)
  from single_group[OF assms(1) prefix_external ne] obtain bg where
    bg: "groupImages prefixImages (rangeKeys E prefixImages) [] = Some bg"
    and keys: "rangeKeys E bg = [''ext:1'']"
    and names: "sortStrings (listAt bg ''ext:1'') = [''fedora'', ''fedora-test'', ''openclaw'']"
    by (auto simp: prefix_names)
  have d: "distinct (map fst prefixImages)" by (simp add: prefixImages_def)
  have glo: "GlobalLayerOrder E prefixImages prefixLayers = Some (Inr prefixOrder)"
    by (rule GlobalLayerOrder_any_order[OF _ assms(1) res d prefix_order])
       (simp add: permuting_id)
  have trie: "buildTrie E prefixImages prefixLayers prefixOrder
                [''fedora'', ''fedora-test'', ''openclaw''] (newTrieNode []) = Some prefixTrie"
    by (simp only: buildTrie_cong_env[OF res] prefix_trie)
  have run: "ComputeIntermediates E prefixImages prefixLayers cfg tag = Some (Inr ?R)"
    by (simp add: ComputeIntermediates_def bg glo keys names trie prefix_root prefix_walk
          copyImages_def Let_def del: buildTrie.simps)
  have a: "map_of ?R ''supervisord''
            = Some (autoImage E ''supervisord'' ''fedora'' [''pixi'', ''python'', ''supervisord'']
                      prefixImages cfg tag prefixLayers prefixOrder)"
    by (simp add: map_of_updateImageBase map_of_createIntermediate)
  have ft: "map_of ?R ''fedora-test''
            = Some ((testImage ''fedora-test'' ''fedora'' False [''testapi''])
                      \<lparr>Base := ''supervisord'', IsExternalBase := False\<rparr>)"
    by (simp add: map_of_updateImageBase map_of_createIntermediate prefixImages_def)
  have oc: "map_of ?R ''openclaw''
            = Some ((testImage ''openclaw'' ''fedora'' False [''openclaw''])
                      \<lparr>Base := ''supervisord'', IsExternalBase := False\<rparr>)"
    by (simp add: map_of_updateImageBase map_of_createIntermediate prefixImages_def)
  show ?thesis
    apply (intro exI conjI)
          apply (rule run)
         apply (rule a)
        apply simp
       apply (rule ft)
      apply simp
     apply (rule oc)
    apply simp
    done
qed

theorem shared_prefix_intermediate_witness:
  "\<exists>result ft oc.
     ComputeIntermediates (specEnv rev) prefixImages prefixLayers testConfig ''v1''
       = Some (Inr result) \<and>
     (\<exists>k img. map_of result k = Some img \<and> Auto img) \<and>
     map_of result ''fedora-test'' = Some ft \<and> Base ft \<noteq> ''fedora'' \<and>
     map_of result ''openclaw'' = Some oc \<and> Base oc \<noteq> ''fedora''"
  by (rule shared_prefix_intermediate) (simp_all add: permuting_rev specEnv_def)

subsection \<open>Concrete runs\<close>

text \<open>The struct of an auto-intermediate under the configuration of the tests and the tag
  \<^verbatim>\<open>v1\<close>.\<close>

definition testAuto :: "string \<Rightarrow> string \<Rightarrow> bool \<Rightarrow> string list \<Rightarrow> unit ResolvedImage" where
  "testAuto name base ext ls =
     \<lparr>Name = name, Base = base, IsExternalBase = ext, Layers = ls, Tag = ''v1'', Registry = ''r'',
      Pkg = ''rpm'', Platforms = [''linux/amd64'', ''linux/arm64''], User = ''user'',
      UID = 1000, GID = 1000, Merge = (), Auto = True, Home = ''/home/user'',
      FullTag = ''r/'' @ name @ '':v1'', Bootc = False\<rparr>"

text \<open>
  Two base groups with the same shape: under each of the external bases \<^verbatim>\<open>ext:1\<close> and
  \<^verbatim>\<open>ext:2\<close>, one image with \<^verbatim>\<open>[python]\<close> and one with \<^verbatim>\<open>[pixi, nodejs]\<close>, so that each group gets
  an intermediate for the shared layer \<^verbatim>\<open>pixi\<close>.
\<close>

definition twoGroups :: "(unit ResolvedImage) gomap" where
  "twoGroups =
     [(''x1'', testImage ''x1'' ''ext:1'' True [''python'']),
      (''x2'', testImage ''x2'' ''ext:1'' True [''pixi'', ''nodejs'']),
      (''y1'', testImage ''y1'' ''ext:2'' True [''python'']),
      (''y2'', testImage ''y2'' ''ext:2'' True [''pixi'', ''nodejs''])]"

definition twoGroupsAscending :: "(unit ResolvedImage) gomap" where
  "twoGroupsAscending =
     [(''x1'', testImage ''x1'' ''pixi'' False [''python'']),
      (''x2'', testImage ''x2'' ''pixi'' False [''pixi'', ''nodejs'']),
      (''y1'', testImage ''y1'' ''pixi-2'' False [''python'']),
      (''y2'', testImage ''y2'' ''pixi-2'' False [''pixi'', ''nodejs'']),
      (''pixi'', testAuto ''pixi'' ''ext:1'' True [''pixi'']),
      (''pixi-2'', testAuto ''pixi-2'' ''ext:2'' True [''pixi''])]"

definition twoGroupsDescending :: "(unit ResolvedImage) gomap" where
  "twoGroupsDescending =
     [(''x1'', testImage ''x1'' ''pixi-2'' False [''python'']),
      (''x2'', testImage ''x2'' ''pixi-2'' False [''pixi'', ''nodejs'']),
      (''y1'', testImage ''y1'' ''pixi'' False [''python'']),
      (''y2'', testImage ''y2'' ''pixi'' False [''pixi'', ''nodejs'']),
      (''pixi'', testAuto ''pixi'' ''ext:2'' True [''pixi'']),
      (''pixi-2'', testAuto ''pixi-2'' ''ext:1'' True [''pixi''])]"

lemma permuting_sort: "permuting sort"
  by (simp add: permuting_def)

lemma permuting_rev_sort: "permuting (rev \<circ> sort)"
  by (simp add: permuting_def)

text \<open>
  C2: two runs of \<^verbatim>\<open>ComputeIntermediates\<close> on the same input, one in which the runtime visits
  the keys of a map in ascending order and one in which it visits them in descending
  order, return different maps: the loop over \<^verbatim>\<open>baseGroups\<close> ranges over the map itself,
  and the group that comes first takes the name \<^verbatim>\<open>pixi\<close> for its intermediate, the other
  \<^verbatim>\<open>pixi-2\<close>.
\<close>

theorem ComputeIntermediates_depends_on_range_order:
  "ComputeIntermediates (specEnv sort) twoGroups tieLayers testConfig ''v1''
     = Some (Inr twoGroupsAscending)
   \<and> ComputeIntermediates (specEnv (rev \<circ> sort)) twoGroups tieLayers testConfig ''v1''
     = Some (Inr twoGroupsDescending)
   \<and> map_of twoGroupsAscending ''x1'' = Some (testImage ''x1'' ''pixi'' False [''python''])
   \<and> map_of twoGroupsDescending ''x1'' = Some (testImage ''x1'' ''pixi-2'' False [''python''])
   \<and> map_of twoGroupsAscending ''pixi'' = Some (testAuto ''pixi'' ''ext:1'' True [''pixi''])
   \<and> map_of twoGroupsDescending ''pixi'' = Some (testAuto ''pixi'' ''ext:2'' True [''pixi''])"
  by code_simp

text \<open>An image that lists a layer which the image below it lists too.\<close>

definition reuseImages :: "(unit ResolvedImage) gomap" where
  "reuseImages =
     [(''fedora'', testImage ''fedora'' ''ext:1'' True []),
      (''app1'', testImage ''app1'' ''fedora'' False [''pixi'']),
      (''app2'', testImage ''app2'' ''fedora'' False [''pixi'', ''nodejs''])]"

definition reuseResult :: "(unit ResolvedImage) gomap" where
  "reuseResult =
     [(''fedora'', testImage ''fedora'' ''ext:1'' True []),
      (''app1'', testImage ''app1'' ''fedora'' False [''pixi'']),
      (''app2'', testImage ''app2'' ''app1'' False [''pixi'', ''nodejs''])]"

text \<open>
  C1, as stated, fails: \<^verbatim>\<open>app1\<close> is reused as the branch point and becomes the base of
  \<^verbatim>\<open>app2\<close>, whose own layers keep \<^verbatim>\<open>pixi\<close>, a layer that \<^verbatim>\<open>app1\<close> provides.
\<close>

theorem own_layers_overlap_counterexample:
  "ComputeIntermediates (specEnv id) reuseImages tieLayers testConfig ''v1'' = Some (Inr reuseResult)
   \<and> map_of reuseResult ''app2'' = Some (testImage ''app2'' ''app1'' False [''pixi'', ''nodejs''])
   \<and> Base (testImage ''app2'' ''app1'' False [''pixi'', ''nodejs'']) = ''app1''
   \<and> ''pixi'' \<in> set (Layers (testImage ''app2'' ''app1'' False [''pixi'', ''nodejs'']))
   \<and> map_of reuseResult ''app1'' = Some (testImage ''app1'' ''fedora'' False [''pixi''])
   \<and> ''pixi'' \<in> set (Layers (testImage ''app1'' ''fedora'' False [''pixi'']))
   \<and> specLayersProvidedByImage ''app1'' reuseResult tieLayers = Inr {''pixi''}"
  by code_simp

text \<open>Two images on an external base whose reference is the word \<^verbatim>\<open>pixi\<close>, which is also the
  name of the layer they share.\<close>

definition clashImages :: "(unit ResolvedImage) gomap" where
  "clashImages =
     [(''u'', testImage ''u'' ''pixi'' True [''python'']),
      (''v'', testImage ''v'' ''pixi'' True [''pixi'', ''nodejs''])]"

definition clashResult :: "(unit ResolvedImage) gomap" where
  "clashResult =
     [(''u'', testImage ''u'' ''pixi'' False [''python'']),
      (''v'', testImage ''v'' ''pixi'' False [''pixi'', ''nodejs'']),
      (''pixi'', testAuto ''pixi'' ''pixi'' True [''pixi''])]"

text \<open>
  C7 at an input on which the code breaks it: the intermediate takes the name \<^verbatim>\<open>pixi\<close> of
  the layer, which is also the external base of the group, so the new image has
  \<^verbatim>\<open>IsExternalBase\<close> true and a \<^verbatim>\<open>Base\<close> that is a key of the result (its own).
\<close>

theorem external_flag_after_name_clash:
  "(map_of clashImages ''pixi'' = None)
   \<and> ComputeIntermediates (specEnv id) clashImages tieLayers testConfig ''v1'' = Some (Inr clashResult)
   \<and> map_of clashResult ''pixi'' = Some (testAuto ''pixi'' ''pixi'' True [''pixi''])
   \<and> IsExternalBase (testAuto ''pixi'' ''pixi'' True [''pixi''])
   \<and> Base (testAuto ''pixi'' ''pixi'' True [''pixi'']) = ''pixi''"
  by code_simp

subsection \<open>What every write keeps\<close>

text \<open>A name that \<^verbatim>\<open>pickIntermediateName\<close> makes up is a key of neither map.\<close>

lemma pickLoop_fresh:
  "pickLoop baseName name suffix' result origImages = Some picked \<Longrightarrow>
   map_of origImages picked = None \<and> map_of result picked = None"
proof (induction rule: pickLoop.raw_induct[rotated 1, consumes 1, case_names step])
  case (step pickLoop' baseName name suffix' result origImages picked)
  show ?case
  proof (cases "map_of origImages name \<noteq> None \<or> map_of result name \<noteq> None")
    case True
    then have "pickLoop' baseName (baseName @ ''-'' @ decimal suffix') (suffix' + 1) result
                 origImages = Some picked"
      using step.hyps by (auto split: if_splits)
    from step.IH[OF this] show ?thesis .
  next
    case False
    then show ?thesis using step.hyps by auto
  qed
qed

text \<open>
  A property of the result map that every write of a base keeps, and every insertion of an
  intermediate under a name that is not a key of the input.
\<close>

definition keptByWrites ::
  "('m, 'x) env_scheme \<Rightarrow> ('m ResolvedImage) gomap \<Rightarrow> Layer gomap \<Rightarrow> 'm Config \<Rightarrow> string
     \<Rightarrow> string list \<Rightarrow> (('m ResolvedImage) gomap \<Rightarrow> bool) \<Rightarrow> bool" where
  "keptByWrites E origImages layers cfg tag globalOrder I \<longleftrightarrow>
     (\<forall>imgName parentName result. I result \<longrightarrow> I (updateImageBase imgName parentName result)) \<and>
     (\<forall>name parentName pathLayers result.
        I result \<longrightarrow> map_of origImages name = None \<longrightarrow>
        I (createIntermediate E name parentName pathLayers result origImages cfg tag layers
             globalOrder))"

lemma kept_update:
  "keptByWrites E origImages layers cfg tag globalOrder I \<Longrightarrow> I result
   \<Longrightarrow> I (updateImageBase imgName parentName result)"
  by (simp add: keptByWrites_def)

lemma kept_create:
  "keptByWrites E origImages layers cfg tag globalOrder I \<Longrightarrow> I result
   \<Longrightarrow> map_of origImages name = None
   \<Longrightarrow> I (createIntermediate E name parentName pathLayers result origImages cfg tag layers
             globalOrder)"
  by (simp add: keptByWrites_def)

lemma kept_fold_update:
  "keptByWrites E origImages layers cfg tag globalOrder I \<Longrightarrow> I result
   \<Longrightarrow> I (fold (\<lambda>imgName result. updateImageBase imgName parentName result) names result)"
  by (induction names arbitrary: result) (auto intro: kept_update)

lemma kept_branchStep:
  assumes K: "keptByWrites E origImages layers cfg tag globalOrder I"
    and I: "I result"
    and pick: "pickIntermediateName current pathLayers result origImages = Some picked"
    and step: "(intermediateName, result') =
                 branchStep E current picked pathLayers parentName result origImages layers cfg
                   tag globalOrder"
  shows "I result'"
proof -
  let ?create = "createIntermediate E picked parentName pathLayers result origImages cfg tag
                   layers globalOrder"
  consider (new) "length (nodeImages current) = 1" "map_of origImages (nodeImages current ! 0) = None"
    | (reuse) "length (nodeImages current) = 1" "map_of origImages (nodeImages current ! 0) \<noteq> None"
    | (other) "length (nodeImages current) \<noteq> 1"
    by blast
  then show ?thesis
  proof cases
    case new
    then have "picked = nodeImages current ! 0"
      using pick by (simp add: pickIntermediateName_def)
    with new have "I ?create" using kept_create[OF K I] by simp
    from kept_update[OF K this] show ?thesis
      using step new by (simp add: branchStep_def isExistingImageReusable_def)
  next
    case reuse
    then show ?thesis
      using step kept_update[OF K I]
      by (simp add: branchStep_def isExistingImageReusable_def assignLayersForIntermediate_def)
  next
    case other
    then have "pickLoop (last pathLayers) (last pathLayers) 2 result origImages = Some picked"
      using pick by (simp add: pickIntermediateName_def)
    from pickLoop_fresh[OF this] have "I ?create" using kept_create[OF K I] by simp
    then show ?thesis
      using step other kept_fold_update[OF K, of ?create]
      by (simp add: branchStep_def split: if_splits)
  qed
qed

lemma kept_walk:
  assumes K: "keptByWrites E origImages layers cfg tag globalOrder I"
  shows "walkTrie E node parentName result origImages layers cfg tag globalOrder = Some r
         \<Longrightarrow> I result \<Longrightarrow> I r"
    and "walkChildren E node keys parentName result origImages layers cfg tag globalOrder = Some r
         \<Longrightarrow> I result \<Longrightarrow> I r"
  using K
proof (induction E node parentName result origImages layers cfg tag globalOrder
         and E node keys parentName result origImages layers cfg tag globalOrder
       arbitrary: r and r rule: walkTrie_walkChildren.induct)
  case (1 E node parentName result origImages layers cfg tag globalOrder)
  from "1.prems"(1) have
    "walkChildren E node (sortedKeys (nodeChildren node)) parentName result origImages layers cfg
       tag globalOrder = Some r"
    by (simp add: walkTrie.simps)
  from "1.IH"[OF this "1.prems"(2,3)] show ?case .
next
  case (2 E node parentName result origImages layers cfg tag globalOrder)
  then show ?case by (simp add: walkChildren.simps)
next
  case (3 E node childLayerName keys parentName result origImages layers cfg tag globalOrder)
  note K = "3.prems"(3)
  note I = "3.prems"(2)
  note run = "3.prems"(1)[unfolded walkChildren.simps]
  show ?case
  proof (cases "map_of (nodeChildren node) childLayerName")
    case None
    with run have "walkChildren E node keys parentName result origImages layers cfg tag
                     globalOrder = Some r" by simp
    from "3.IH"(1)[OF None this I K] show ?thesis .
  next
    case (Some child)
    obtain pathLayers current where fc: "(pathLayers, current) = followChain child [childLayerName]"
      by (metis surj_pair)
    let ?branch = "2 \<le> length (nodeChildren current) \<or>
                   1 \<le> length (nodeChildren current) \<and> 0 < length (nodeImages current)"
    show ?thesis
    proof (cases ?branch)
      case True
      from run Some fc[symmetric] True obtain picked where
        pick: "pickIntermediateName current pathLayers result origImages = Some picked"
        by (cases "pickIntermediateName current pathLayers result origImages") auto
      obtain iname r1 where
        bs: "(iname, r1) = branchStep E current picked pathLayers parentName result origImages
                             layers cfg tag globalOrder"
        by (metis surj_pair)
      from run Some fc[symmetric] True pick bs[symmetric] obtain r2 where
        w: "walkTrie E current iname r1 origImages layers cfg tag globalOrder = Some r2"
        and rest: "walkChildren E node keys parentName r2 origImages layers cfg tag globalOrder
                     = Some r"
        by (cases "walkTrie E current iname r1 origImages layers cfg tag globalOrder") auto
      have "I r1" by (rule kept_branchStep[OF K I pick bs])
      from "3.IH"(2)[OF Some fc True pick bs w this K] have "I r2" .
      from "3.IH"(3)[OF Some fc True pick bs w rest this K] show ?thesis .
    next
      case False
      show ?thesis
      proof (cases "length (nodeChildren current) = 0")
        case True
        let ?r1 = "fold (\<lambda>imgName result. updateImageBase imgName parentName result)
                     (nodeImages current) result"
        from run Some fc[symmetric] False True have
          rest: "walkChildren E node keys parentName ?r1 origImages layers cfg tag globalOrder
                   = Some r" by auto
        have "I ?r1" by (rule kept_fold_update[OF K I])
        from "3.IH"(4)[OF Some fc False True rest this K] show ?thesis .
      next
        case nz: False
        from run Some fc[symmetric] False nz have
          rest: "walkChildren E node keys parentName result origImages layers cfg tag globalOrder
                   = Some r" by auto
        from "3.IH"(5)[OF Some fc False nz rest I K] show ?thesis .
      qed
    qed
  qed
qed

lemma kept_processGroups:
  assumes "keptByWrites E images layers cfg tag globalOrder I"
  shows "processGroups E images layers cfg tag globalOrder baseGroups keys result = Some r
         \<Longrightarrow> I result \<Longrightarrow> I r"
proof (induction keys arbitrary: result)
  case Nil
  then show ?case by simp
next
  case (Cons key keys)
  let ?names = "sortStrings (listAt baseGroups key)"
  show ?case
  proof (cases "length ?names \<le> 1")
    case True
    with Cons.prems(1) have
      "processGroups E images layers cfg tag globalOrder baseGroups keys result = Some r"
      by simp
    from Cons.IH[OF this Cons.prems(2)] show ?thesis .
  next
    case False
    with Cons.prems(1) obtain root startParent r1 where
      "walkTrie E root startParent result images layers cfg tag globalOrder = Some r1"
      and rest: "processGroups E images layers cfg tag globalOrder baseGroups keys r1 = Some r"
      by (simp add: Let_def split: option.splits)
    from kept_walk(1)[OF assms this(1) Cons.prems(2)] have "I r1" .
    from Cons.IH[OF rest this] show ?thesis .
  qed
qed

lemma kept_ComputeIntermediates:
  assumes "ComputeIntermediates E images layers cfg tag = Some (Inr result)"
    and "\<And>globalOrder. keptByWrites E images layers cfg tag globalOrder I"
    and "I images"
  shows "I result"
proof -
  from assms(1) obtain baseGroups globalOrder where
    "processGroups E images layers cfg tag globalOrder baseGroups (rangeKeys E baseGroups)
       (copyImages images) = Some result"
    by (auto simp: ComputeIntermediates_def split: option.splits sum.splits)
  from kept_processGroups[OF assms(2) this] assms(3) show ?thesis
    by (simp add: copyImages_def)
qed

text \<open>What the result has kept of the input.\<close>

definition frame :: "('m ResolvedImage) gomap \<Rightarrow> ('m ResolvedImage) gomap \<Rightarrow> bool" where
  "frame images result \<longleftrightarrow>
     (\<forall>k img. map_of images k = Some img \<longrightarrow>
        (\<exists>img'. map_of result k = Some img' \<and>
                img'\<lparr>Base := Base img, IsExternalBase := IsExternalBase img\<rparr> = img)) \<and>
     (\<forall>k img'. map_of result k = Some img' \<longrightarrow> map_of images k = None \<longrightarrow> Auto img')"

lemma frame_kept: "keptByWrites E images layers cfg tag globalOrder (frame images)"
  unfolding keptByWrites_def
proof (intro conjI allI impI)
  fix imgName parentName and result :: "('a ResolvedImage) gomap"
  assume F: "frame images result"
  show "frame images (updateImageBase imgName parentName result)"
    unfolding frame_def
  proof (intro conjI allI impI)
    fix k img
    assume "map_of images k = Some img"
    with F obtain img' where 1: "map_of result k = Some img'"
      and 2: "img'\<lparr>Base := Base img, IsExternalBase := IsExternalBase img\<rparr> = img"
      unfolding frame_def by blast
    show "\<exists>img'. map_of (updateImageBase imgName parentName result) k = Some img' \<and>
                 img'\<lparr>Base := Base img, IsExternalBase := IsExternalBase img\<rparr> = img"
      using 1 2 by (cases "k = imgName") (auto simp: map_of_updateImageBase)
  next
    fix k img'
    assume "map_of (updateImageBase imgName parentName result) k = Some img'"
      and "map_of images k = None"
    then show "Auto img'"
      using F unfolding frame_def
      by (cases "k = imgName") (auto simp: map_of_updateImageBase)
  qed
next
  fix name parentName pathLayers and result :: "('a ResolvedImage) gomap"
  assume F: "frame images result" and fresh: "map_of images name = None"
  show "frame images (createIntermediate E name parentName pathLayers result images cfg tag
                        layers globalOrder)"
    unfolding frame_def
  proof (intro conjI allI impI)
    fix k img
    assume k: "map_of images k = Some img"
    with fresh have "k \<noteq> name" by auto
    then show "\<exists>img'. map_of (createIntermediate E name parentName pathLayers result images cfg
                                  tag layers globalOrder) k = Some img' \<and>
                 img'\<lparr>Base := Base img, IsExternalBase := IsExternalBase img\<rparr> = img"
      using F k unfolding frame_def by (simp add: map_of_createIntermediate)
  next
    fix k img'
    assume "map_of (createIntermediate E name parentName pathLayers result images cfg tag layers
                      globalOrder) k = Some img'"
      and "map_of images k = None"
    then show "Auto img'"
      using F unfolding frame_def
      by (cases "k = name") (auto simp: map_of_createIntermediate)
  qed
qed

lemma frame_refl: "frame images images"
  by (simp add: frame_def)

text \<open>
  C8: when \<^verbatim>\<open>ComputeIntermediates\<close> returns a map, every key of the input is a key of it, and
  its image there is the input image but for \<^verbatim>\<open>Base\<close> and \<^verbatim>\<open>IsExternalBase\<close> (all other fields,
  the own layers among them, are equal); and every image under a key that the input does not
  have has \<^verbatim>\<open>Auto\<close> true.
\<close>

theorem ComputeIntermediates_frame:
  assumes "ComputeIntermediates E images layers cfg tag = Some (Inr result)"
  shows "(\<forall>k img. map_of images k = Some img \<longrightarrow>
            (\<exists>img'. map_of result k = Some img' \<and>
                    img'\<lparr>Base := Base img, IsExternalBase := IsExternalBase img\<rparr> = img)) \<and>
         (\<forall>k img'. map_of result k = Some img' \<longrightarrow> map_of images k = None \<longrightarrow> Auto img')"
  using kept_ComputeIntermediates[OF assms frame_kept frame_refl]
  by (simp add: frame_def)

end
